theory Spec2Isabelle
  imports Main "HOL-Library.Word" "HOL-Library.Multiset" "HOL-Library.Sublist"
begin

section \<open>The read manager of Octopus (src/src/read_manager.cpp)\<close>

text \<open>
  The manager keeps a catalogue of alignment files, partitioned into closed and open
  readers, a sample index and a region index, and answers fetch queries under a limit on
  the number of simultaneously open files. The embedding follows read_manager.cpp
  function by function. Mutation is explicit state passing on the record \<open>manager\<close>;
  a C++ exception is the outcome \<open>Throws\<close>, which carries the state of the object at
  the throw; behaviour the language leaves undefined (reading \<open>begin()\<close> of an empty
  map) is the outcome \<open>Undefined_behaviour\<close>, after which there is no state.
\<close>

subsection \<open>Types\<close>

type_synonym path = string
type_synonym SampleIdType = string
type_synonym AlignedRead = nat
type_synonym SequenceRegion = "nat \<times> nat"
type_synonym ContigMap = "(string \<times> SequenceRegion list) list"
type_synonym ReaderRegionsMap = "(path \<times> ContigMap) list"
type_synonym SampleIdToReaderPathMap = "(SampleIdType \<times> path list) list"
type_synonym SampleReadMap = "(SampleIdType \<times> AlignedRead list) list"

record GenomicRegion =
  get_contig_name :: string
  get_contig_region :: SequenceRegion

text \<open>
  The file system and the reader facade (boost::filesystem, HtslibSamFacade, ReadReader)
  are collaborators outside the manager. They are a parameter of the model: whether a
  path exists, its size on disk, what a header scan of the file yields, and what a region
  query on a reader of the file returns (a map from sample to reads, as a key-value
  list). The files do not change while the manager lives.
\<close>

record world =
  fs_exists :: "path \<Rightarrow> bool"
  fs_file_size :: "path \<Rightarrow> nat"
  get_possible_regions_in_file :: "path \<Rightarrow> GenomicRegion list"
  get_samples_in_file :: "path \<Rightarrow> SampleIdType list"
  reader_fetch_reads :: "path \<Rightarrow> GenomicRegion \<Rightarrow> SampleReadMap"

text \<open>
  The members of ReadManager. \<open>unsigned\<close> is a 32-bit word. \<open>closed_readers\<close> is the
  unordered set of paths, as the list of its elements; \<open>open_readers_map\<close> is the ordered
  map from path to reader, as the list of its keys in iteration order (the reader stored
  under a key is the one made from that key by make_reader);
  \<open>reader_paths_containing_sample\<close> is the unordered map from sample to paths and
  \<open>possible_regions_in_readers\<close> the unordered map from path to a map from contig name to
  sub-ranges, both as key-value lists.

  \<open>peak_open\<close> is not a member of the class. It is a ghost field that records the largest
  number of readers open_readers_ has held at any moment so far; the one place where the
  map grows (\<open>emplace_reader\<close>) keeps it up to date. It lets the budget be stated for
  every intermediate point of a call and not only for the state the call returns.
\<close>

record manager =
  max_open_files :: "32 word"
  num_files :: "32 word"
  closed_readers :: "path list"
  open_readers_map :: "path list"
  reader_paths_containing_sample :: SampleIdToReaderPathMap
  possible_regions_in_readers :: ReaderRegionsMap
  peak_open :: nat

datatype exn = Out_of_range | Runtime_error string

datatype 'a outcome = Returns 'a manager | Throws exn manager | Undefined_behaviour

fun final_state :: "'a outcome \<Rightarrow> manager option" where
  "final_state (Returns x m) = Some m"
| "final_state (Throws e m) = Some m"
| "final_state Undefined_behaviour = None"

subsection \<open>Library containers\<close>

text \<open>
  An unordered set, as a duplicate-free list. The iteration order of an unordered
  container is unspecified; the model iterates in insertion order.
\<close>

definition uset_insert :: "'a \<Rightarrow> 'a list \<Rightarrow> 'a list" where
  "uset_insert x xs = (if x \<in> set xs then xs else xs @ [x])"

definition uset_erase :: "'a \<Rightarrow> 'a list \<Rightarrow> 'a list" where
  "uset_erase x xs = removeAll x xs"

definition uset_of :: "'a list \<Rightarrow> 'a list" where
  "uset_of xs = foldl (\<lambda>s x. uset_insert x s) [] xs"

text \<open>
  An unordered map, as a key-value list searched from the front (\<open>map_of\<close> is find and
  at). \<open>umap_modify k f\<close> is the effect of \<open>m[k] = f(m[k])\<close>: operator[] inserts a
  value-initialised entry (an empty container here) when the key is absent.
\<close>

fun umap_modify :: "'k \<Rightarrow> ('v list \<Rightarrow> 'v list) \<Rightarrow> ('k \<times> 'v list) list \<Rightarrow> ('k \<times> 'v list) list" where
  "umap_modify k f [] = [(k, f [])]"
| "umap_modify k f ((k', v) # kvs) =
     (if k' = k then (k', f v) # kvs else (k', v) # umap_modify k f kvs)"

text \<open>
  Modelled from the spec: detail::file_size_compare is declared in read_manager.hpp,
  which is not among the sources. The spec calls it the comparator by on-disk size,
  smallest first; read_manager.cpp passes it to the constructor of open_readers_ and to
  std::nth_element, and its comment on \<open>open_readers_.begin()\<close> reads "i.e. smallest file
  size".
\<close>

definition file_size_compare :: "world \<Rightarrow> path \<Rightarrow> path \<Rightarrow> bool" where
  "file_size_compare w lhs rhs = (fs_file_size w lhs < fs_file_size w rhs)"

text \<open>
  The ordered map open_readers_ is constructed with file_size_compare as its ordering, and
  is used through at, count, emplace, erase and begin: a map with unique keys. Two keys are
  the same key for such a map when neither is less than the other. The three functions
  below walk the keys in order, as a search in the map does.
\<close>

fun map_find :: "world \<Rightarrow> path \<Rightarrow> path list \<Rightarrow> path option" where
  "map_find w k [] = None"
| "map_find w k (x # xs) =
     (if file_size_compare w k x then None
      else if file_size_compare w x k then map_find w k xs
      else Some x)"

fun map_emplace :: "world \<Rightarrow> path \<Rightarrow> path list \<Rightarrow> path list" where
  "map_emplace w k [] = [k]"
| "map_emplace w k (x # xs) =
     (if file_size_compare w k x then k # x # xs
      else if file_size_compare w x k then x # map_emplace w k xs
      else x # xs)"

fun map_erase :: "world \<Rightarrow> path \<Rightarrow> path list \<Rightarrow> path list" where
  "map_erase w k [] = []"
| "map_erase w k (x # xs) =
     (if file_size_compare w k x then x # xs
      else if file_size_compare w x k then x # map_erase w k xs
      else xs)"

text \<open>
  std::nth_element only promises that the element at position n is the one a full sort
  would put there, with no larger element before it and no smaller one after it. The
  model takes the fully sorted arrangement, which meets that promise for every n.
\<close>

definition nth_element :: "world \<Rightarrow> nat \<Rightarrow> path list \<Rightarrow> path list" where
  "nth_element w n xs = sort_key (fs_file_size w) xs"

text \<open>
  std::partition is \<open>partition\<close> of the list library: the elements that satisfy the
  predicate, then the others, each group in its former order. The standard leaves the
  order inside the groups open; the usual implementations swap misplaced elements from
  both ends and, like the model, leave a sequence as it is when it is already
  partitioned.
\<close>

text \<open>\<open>reads[sample]\<close> on the map a reader returns: the reads stored under the sample,
  or an empty sequence.\<close>

fun lookup_default :: "('k \<times> 'v list) list \<Rightarrow> 'k \<Rightarrow> 'v list" where
  "lookup_default [] k = []"
| "lookup_default ((k', v) # kvs) k = (if k' = k then v else lookup_default kvs k)"

subsection \<open>Queries on the indexes\<close>

definition num_samples :: "manager \<Rightarrow> 32 word" where
  "num_samples m = of_nat (length (reader_paths_containing_sample m))"

definition get_samples :: "manager \<Rightarrow> SampleIdType list outcome" where
  "get_samples m = Returns (map fst (reader_paths_containing_sample m)) m"

definition is_open :: "world \<Rightarrow> manager \<Rightarrow> path \<Rightarrow> bool" where
  "is_open w m reader_path = (map_find w reader_path (open_readers_map m) \<noteq> None)"

text \<open>
  Modelled from the spec: has_overlapped (mappable_algorithms.hpp) and the overlap of two
  sub-ranges are not among the sources. The spec: true iff at least one indexed sub-range
  overlaps the query range, the ranges being half-open intervals.
\<close>

definition overlaps :: "SequenceRegion \<Rightarrow> SequenceRegion \<Rightarrow> bool" where
  "overlaps a b = (fst a < snd b \<and> fst b < snd a)"

definition has_overlapped :: "SequenceRegion list \<Rightarrow> SequenceRegion \<Rightarrow> bool" where
  "has_overlapped contig_regions r = list_ex (\<lambda>x. overlaps x r) contig_regions"

definition could_reader_contain_region :: "manager \<Rightarrow> path \<Rightarrow> GenomicRegion \<Rightarrow> bool" where
  "could_reader_contain_region m the_reader_path region =
     (case map_of (possible_regions_in_readers m) the_reader_path of
        None \<Rightarrow> False
      | Some contigs \<Rightarrow>
          (case map_of contigs (get_contig_name region) of
             None \<Rightarrow> False
           | Some contig_regions \<Rightarrow> has_overlapped contig_regions (get_contig_region region)))"

subsection \<open>The reader pool\<close>

definition close_reader :: "world \<Rightarrow> path \<Rightarrow> manager \<Rightarrow> manager" where
  "close_reader w read_file_path m =
     m\<lparr>open_readers_map := map_erase w read_file_path (open_readers_map m),
       closed_readers := uset_insert read_file_path (closed_readers m)\<rparr>"

text \<open>
  choose_reader_to_close reads \<open>open_readers_.begin()->first\<close>. On an empty map begin()
  is end(), and reading through it is undefined.
\<close>

definition choose_reader_to_close :: "manager \<Rightarrow> path outcome" where
  "choose_reader_to_close m =
     (case open_readers_map m of
        [] \<Rightarrow> Undefined_behaviour
      | p # ps \<Rightarrow> Returns p m)"

fun close_readers :: "world \<Rightarrow> nat \<Rightarrow> manager \<Rightarrow> unit outcome" where
  "close_readers w 0 m = Returns () m"
| "close_readers w (Suc n) m =
     (case choose_reader_to_close m of
        Returns p m' \<Rightarrow> close_readers w n (close_reader w p m')
      | Throws e m' \<Rightarrow> Throws e m'
      | Undefined_behaviour \<Rightarrow> Undefined_behaviour)"

text \<open>The body of both opening loops: emplace a reader made for the path, erase the path
  from the closed set.\<close>

definition emplace_reader :: "world \<Rightarrow> manager \<Rightarrow> path \<Rightarrow> manager" where
  "emplace_reader w m reader_path =
     m\<lparr>open_readers_map := map_emplace w reader_path (open_readers_map m),
       closed_readers := uset_erase reader_path (closed_readers m),
       peak_open := max (peak_open m) (length (map_emplace w reader_path (open_readers_map m)))\<rparr>"

definition open_reader :: "world \<Rightarrow> path \<Rightarrow> manager \<Rightarrow> unit outcome" where
  "open_reader w reader_path m =
     (if length (open_readers_map m) = unat (max_open_files m)
      then (case choose_reader_to_close m of
              Returns p m' \<Rightarrow> Returns () (emplace_reader w (close_reader w p m') reader_path)
            | Throws e m' \<Rightarrow> Throws e m'
            | Undefined_behaviour \<Rightarrow> Undefined_behaviour)
      else Returns () (emplace_reader w m reader_path))"

definition num_readers_to_close :: "manager \<Rightarrow> path list \<Rightarrow> 32 word" where
  "num_readers_to_close m paths =
     (let num_open_reader_spaces = max_open_files m - of_nat (length (open_readers_map m));
          num_requested_spaces = of_nat (length paths)
      in if num_requested_spaces \<le> num_open_reader_spaces then 0
         else num_requested_spaces - num_open_reader_spaces)"

definition open_readers :: "world \<Rightarrow> path list \<Rightarrow> manager \<Rightarrow> unit outcome" where
  "open_readers w paths m =
     (case close_readers w (unat (num_readers_to_close m paths)) m of
        Returns u m' \<Rightarrow> Returns () (foldl (emplace_reader w) m' paths)
      | Throws e m' \<Rightarrow> Throws e m'
      | Undefined_behaviour \<Rightarrow> Undefined_behaviour)"

subsection \<open>Construction\<close>

text \<open>ReadManager::setup is \<open>setup_manager\<close> here.\<close>

definition get_bad_paths :: "world \<Rightarrow> manager \<Rightarrow> path list" where
  "get_bad_paths w m = filter (\<lambda>p. \<not> fs_exists w p) (closed_readers m)"

text \<open>
  Modelled from the spec: operator< on sub-ranges is not among the sources; the spec
  says the sequences are sorted ascending by start coordinate.
\<close>

definition sort_regions :: "SequenceRegion list \<Rightarrow> SequenceRegion list" where
  "sort_regions rs = sort_key fst rs"

definition push_region :: "path \<Rightarrow> ReaderRegionsMap \<Rightarrow> GenomicRegion \<Rightarrow> ReaderRegionsMap" where
  "push_region p regions_map region =
     umap_modify p
       (umap_modify (get_contig_name region) (\<lambda>v. v @ [get_contig_region region]))
       regions_map"

definition sort_contigs :: "path \<Rightarrow> ReaderRegionsMap \<Rightarrow> ReaderRegionsMap" where
  "sort_contigs p regions_map =
     umap_modify p (map (\<lambda>contig_regions. (fst contig_regions, sort_regions (snd contig_regions))))
       regions_map"

definition add_possible_regions_to_reader_map ::
  "path \<Rightarrow> GenomicRegion list \<Rightarrow> manager \<Rightarrow> manager" where
  "add_possible_regions_to_reader_map the_reader_path the_regions m =
     m\<lparr>possible_regions_in_readers :=
         sort_contigs the_reader_path
           (foldl (push_region the_reader_path) (possible_regions_in_readers m) the_regions)\<rparr>"

definition push_reader_path ::
  "path \<Rightarrow> SampleIdToReaderPathMap \<Rightarrow> SampleIdType \<Rightarrow> SampleIdToReaderPathMap" where
  "push_reader_path p sample_map sample = umap_modify sample (\<lambda>v. v @ [p]) sample_map"

definition add_reader_to_sample_map :: "path \<Rightarrow> SampleIdType list \<Rightarrow> manager \<Rightarrow> manager" where
  "add_reader_to_sample_map the_reader_path the_samples_in_reader m =
     m\<lparr>reader_paths_containing_sample :=
         foldl (push_reader_path the_reader_path) (reader_paths_containing_sample m)
           the_samples_in_reader\<rparr>"

definition scan_reader :: "world \<Rightarrow> manager \<Rightarrow> path \<Rightarrow> manager" where
  "scan_reader w m reader_path =
     add_reader_to_sample_map reader_path (get_samples_in_file w reader_path)
       (add_possible_regions_to_reader_map reader_path
          (get_possible_regions_in_file w reader_path) m)"

definition setup_reader_samples_and_regions :: "world \<Rightarrow> manager \<Rightarrow> manager" where
  "setup_reader_samples_and_regions w m = foldl (scan_reader w) m (closed_readers m)"

definition open_initial_files :: "world \<Rightarrow> manager \<Rightarrow> unit outcome" where
  "open_initial_files w m =
     (let reader_paths = closed_readers m;
          num_files_to_open = min (max_open_files m) (of_nat (length (closed_readers m)));
          reader_paths' = nth_element w (unat num_files_to_open) reader_paths
      in open_readers w (take (unat num_files_to_open) reader_paths') m)"

definition bad_path_line :: "path \<Rightarrow> string" where
  "bad_path_line p = [CHR 0x09] @ ''* '' @ p @ '': does not exist'' @ [CHR 0x0A]"

definition bad_paths_error :: "path list \<Rightarrow> string" where
  "bad_paths_error bad_paths =
     butlast (foldl (\<lambda>error p. error @ bad_path_line p)
                (''bad read files: '' @ [CHR 0x0A]) bad_paths)"

definition setup_manager :: "world \<Rightarrow> manager \<Rightarrow> unit outcome" where
  "setup_manager w m =
     (let bad_paths = get_bad_paths w m
      in if bad_paths = []
         then open_initial_files w (setup_reader_samples_and_regions w m)
         else Throws (Runtime_error (bad_paths_error bad_paths)) m)"

text \<open>
  The member initialisers of the constructor, then its body. (The second constructor,
  from an initializer list, differs only in leaving max_open_files at the default the
  header declares.)
\<close>

definition new_manager :: "path list \<Rightarrow> 32 word \<Rightarrow> manager" where
  "new_manager read_file_paths max_open =
     \<lparr>max_open_files = max_open,
      num_files = of_nat (length read_file_paths),
      closed_readers = uset_of read_file_paths,
      open_readers_map = [],
      reader_paths_containing_sample = [],
      possible_regions_in_readers = [],
      peak_open = 0\<rparr>"

definition ReadManager :: "world \<Rightarrow> path list \<Rightarrow> 32 word \<Rightarrow> unit outcome" where
  "ReadManager w read_file_paths max_open =
     setup_manager w (new_manager read_file_paths max_open)"

subsection \<open>Fetching reads\<close>

text \<open>
  The two for_each loops of fetch_reads: each path is looked up with \<open>at\<close> in the map of
  open readers (which throws std::out_of_range when no key is found) and the reads of the
  reader found are appended.
\<close>

fun fetch_each ::
  "world \<Rightarrow> path list \<Rightarrow> GenomicRegion \<Rightarrow> SampleIdType \<Rightarrow> path list \<Rightarrow> AlignedRead list
   \<Rightarrow> AlignedRead list option" where
  "fetch_each w pool region sample [] result = Some result"
| "fetch_each w pool region sample (p # ps) result =
     (case map_find w p pool of
        None \<Rightarrow> None
      | Some q \<Rightarrow>
          fetch_each w pool region sample ps
            (result @ lookup_default (reader_fetch_reads w q region) sample))"

fun assign_reader_paths ::
  "SampleIdType \<Rightarrow> path list \<Rightarrow> SampleIdToReaderPathMap \<Rightarrow> SampleIdToReaderPathMap" where
  "assign_reader_paths sample v [] = []"
| "assign_reader_paths sample v ((k, x) # kvs) =
     (if k = sample then (k, v) # kvs else (k, x) # assign_reader_paths sample v kvs)"

text \<open>
  fetch_reads for one sample. \<open>reader_paths\<close> is a reference to the vector stored in the
  sample index, and both calls of std::partition reorder that vector in place; the model
  writes the reordered vector back into the index.
\<close>

definition fetch_reads ::
  "world \<Rightarrow> SampleIdType \<Rightarrow> GenomicRegion \<Rightarrow> manager \<Rightarrow> AlignedRead list outcome" where
  "fetch_reads w sample region m =
     (case map_of (reader_paths_containing_sample m) sample of
        None \<Rightarrow> Throws Out_of_range m
      | Some reader_paths \<Rightarrow>
          (let (containing, others) =
                 partition (\<lambda>p. could_reader_contain_region m p region) reader_paths;
               (opened, unopened) = partition (is_open w m) containing;
               m1 = m\<lparr>reader_paths_containing_sample :=
                        assign_reader_paths sample (opened @ unopened @ others)
                          (reader_paths_containing_sample m)\<rparr>
           in case fetch_each w (open_readers_map m1) region sample opened [] of
                None \<Rightarrow> Throws Out_of_range m1
              | Some result \<Rightarrow>
                  (case open_readers w unopened m1 of
                     Undefined_behaviour \<Rightarrow> Undefined_behaviour
                   | Throws e m2 \<Rightarrow> Throws e m2
                   | Returns u m2 \<Rightarrow>
                       (case fetch_each w (open_readers_map m2) region sample unopened result of
                          None \<Rightarrow> Throws Out_of_range m2
                        | Some result' \<Rightarrow> Returns result' m2))))"

fun get_reader_paths_containing_samples ::
  "manager \<Rightarrow> SampleIdType list \<Rightarrow> path list \<Rightarrow> path list option" where
  "get_reader_paths_containing_samples m [] unique_reader_paths = Some unique_reader_paths"
| "get_reader_paths_containing_samples m (sample # samples) unique_reader_paths =
     (case map_of (reader_paths_containing_sample m) sample of
        None \<Rightarrow> None
      | Some sample_reader_paths \<Rightarrow>
          get_reader_paths_containing_samples m samples
            (foldl (\<lambda>s p. uset_insert p s) unique_reader_paths sample_reader_paths))"

text \<open>The inner loop of the multi-sample fetch: the reads a reader returned for each
  sample are appended to \<open>result[sample]\<close>.\<close>

definition merge_reads :: "SampleReadMap \<Rightarrow> SampleReadMap \<Rightarrow> SampleReadMap" where
  "merge_reads result reads =
     foldl (\<lambda>res sample_reads. umap_modify (fst sample_reads) (\<lambda>v. v @ snd sample_reads) res)
       result reads"

fun fetch_each_map ::
  "world \<Rightarrow> path list \<Rightarrow> GenomicRegion \<Rightarrow> path list \<Rightarrow> SampleReadMap \<Rightarrow> SampleReadMap option" where
  "fetch_each_map w pool region [] result = Some result"
| "fetch_each_map w pool region (p # ps) result =
     (case map_find w p pool of
        None \<Rightarrow> None
      | Some q \<Rightarrow>
          fetch_each_map w pool region ps (merge_reads result (reader_fetch_reads w q region)))"

definition fetch_reads_samples ::
  "world \<Rightarrow> SampleIdType list \<Rightarrow> GenomicRegion \<Rightarrow> manager \<Rightarrow> SampleReadMap outcome" where
  "fetch_reads_samples w samples region m =
     (case get_reader_paths_containing_samples m samples [] of
        None \<Rightarrow> Throws Out_of_range m
      | Some reader_paths_containing_samples \<Rightarrow>
          (let (containing, others) =
                 partition (\<lambda>p. could_reader_contain_region m p region)
                   reader_paths_containing_samples;
               (opened, unopened) = partition (is_open w m) containing
           in case fetch_each_map w (open_readers_map m) region opened [] of
                None \<Rightarrow> Throws Out_of_range m
              | Some result \<Rightarrow>
                  (case open_readers w unopened m of
                     Undefined_behaviour \<Rightarrow> Undefined_behaviour
                   | Throws e m2 \<Rightarrow> Throws e m2
                   | Returns u m2 \<Rightarrow>
                       (case fetch_each_map w (open_readers_map m2) region unopened result of
                          None \<Rightarrow> Throws Out_of_range m2
                        | Some result' \<Rightarrow> Returns result' m2))))"

definition fetch_reads_all ::
  "world \<Rightarrow> GenomicRegion \<Rightarrow> manager \<Rightarrow> SampleReadMap outcome" where
  "fetch_reads_all w region m =
     fetch_reads_samples w (map fst (reader_paths_containing_sample m)) region m"

subsection \<open>Sequences of calls\<close>

text \<open>
  The calls a client (or the manager itself) makes on a constructed manager. A call that
  throws leaves the manager as it was at the throw, and the next call goes on from there;
  after undefined behaviour there is nothing to go on from.
\<close>

datatype call =
    Open_reader path
  | Close_reader path
  | Fetch_reads SampleIdType GenomicRegion
  | Fetch_reads_samples "SampleIdType list" GenomicRegion
  | Fetch_reads_all GenomicRegion
  | Get_samples

fun do_call :: "world \<Rightarrow> call \<Rightarrow> manager \<Rightarrow> manager option" where
  "do_call w (Open_reader p) m = final_state (open_reader w p m)"
| "do_call w (Close_reader p) m = Some (close_reader w p m)"
| "do_call w (Fetch_reads sample region) m = final_state (fetch_reads w sample region m)"
| "do_call w (Fetch_reads_samples samples region) m =
     final_state (fetch_reads_samples w samples region m)"
| "do_call w (Fetch_reads_all region) m = final_state (fetch_reads_all w region m)"
| "do_call w Get_samples m = final_state (get_samples m)"

fun do_calls :: "world \<Rightarrow> call list \<Rightarrow> manager \<Rightarrow> manager option" where
  "do_calls w [] m = Some m"
| "do_calls w (c # cs) m =
     (case do_call w c m of None \<Rightarrow> None | Some m' \<Rightarrow> do_calls w cs m')"

subsection \<open>Notions used to state the properties\<close>

text \<open>
  The budget: the map of open readers holds no more readers than \<open>peak_open\<close> records,
  and \<open>peak_open\<close> has never passed max_open_files. \<open>index_entries\<close> counts the paths
  stored in the sample index, over all samples.
\<close>

definition within_budget :: "manager \<Rightarrow> bool" where
  "within_budget m =
     (length (open_readers_map m) \<le> peak_open m \<and> peak_open m \<le> unat (max_open_files m))"

definition index_entries :: "manager \<Rightarrow> nat" where
  "index_entries m = length (concat (map snd (reader_paths_containing_sample m)))"

text \<open>The sub-ranges a header scan declares for one contig, in the order of the scan.\<close>

definition contig_ranges :: "GenomicRegion list \<Rightarrow> string \<Rightarrow> SequenceRegion list" where
  "contig_ranges regions c =
     map get_contig_region (filter (\<lambda>r. get_contig_name r = c) regions)"

text \<open>All reads a reader returned for one sample.\<close>

definition reads_of_sample :: "SampleReadMap \<Rightarrow> SampleIdType \<Rightarrow> AlignedRead list" where
  "reads_of_sample reads s = concat (map snd (filter (\<lambda>sample_reads. fst sample_reads = s) reads))"

text \<open>The keys of the map of open readers are in strictly ascending order of the
  comparator: the invariant of an ordered map with unique keys.\<close>

definition pool_sorted :: "world \<Rightarrow> manager \<Rightarrow> bool" where
  "pool_sorted w m = sorted_wrt (file_size_compare w) (open_readers_map m)"

subsection \<open>A concrete world\<close>

text \<open>
  Four alignment files on contig chr1, of sizes 10, 20, 30 and 40, holding samples S1
  and S2; used to run the model on concrete calls.
\<close>

definition chr1 :: "nat \<Rightarrow> nat \<Rightarrow> GenomicRegion" where
  "chr1 b e = \<lparr>get_contig_name = ''chr1'', get_contig_region = (b, e)\<rparr>"

definition lab :: world where
  "lab = \<lparr>fs_exists = (\<lambda>p. p \<in> set [''a.bam'', ''b.bam'', ''c.bam'', ''d.bam'']),
          fs_file_size = (\<lambda>p. if p = ''a.bam'' then 10 else if p = ''b.bam'' then 20
                               else if p = ''c.bam'' then 30 else if p = ''d.bam'' then 40 else 0),
          get_possible_regions_in_file =
            (\<lambda>p. if p = ''a.bam'' then [chr1 0 100] else if p = ''b.bam'' then [chr1 200 300]
                  else if p = ''c.bam'' then [chr1 0 300] else if p = ''d.bam'' then [chr1 0 300] else []),
          get_samples_in_file =
            (\<lambda>p. if p = ''a.bam'' then [''S1''] else if p = ''b.bam'' then [''S2'']
                  else if p = ''c.bam'' then [''S1'', ''S2''] else if p = ''d.bam'' then [''S1''] else []),
          reader_fetch_reads =
            (\<lambda>p r. if p = ''a.bam'' then [(''S1'', [1, 2])] else if p = ''b.bam'' then [(''S2'', [3])]
                  else if p = ''c.bam'' then [(''S1'', [4]), (''S2'', [5])]
                  else if p = ''d.bam'' then [(''S1'', [6])] else [])\<rparr>"

definition lab_paths :: "path list" where
  "lab_paths = [''a.bam'', ''b.bam'', ''c.bam'', ''d.bam'']"

definition lab_index :: SampleIdToReaderPathMap where
  "lab_index = [(''S1'', [''a.bam'', ''c.bam'', ''d.bam'']), (''S2'', [''b.bam'', ''c.bam''])]"

definition lab_regions :: ReaderRegionsMap where
  "lab_regions =
     [(''a.bam'', [(''chr1'', [(0, 100)])]), (''b.bam'', [(''chr1'', [(200, 300)])]),
      (''c.bam'', [(''chr1'', [(0, 300)])]), (''d.bam'', [(''chr1'', [(0, 300)])])]"

text \<open>The manager constructed over the four files with a budget of two open files.\<close>

definition lab2 :: manager where
  "lab2 = \<lparr>max_open_files = 2, num_files = 4,
            closed_readers = [''c.bam'', ''d.bam''],
            open_readers_map = [''a.bam'', ''b.bam''],
            reader_paths_containing_sample = lab_index,
            possible_regions_in_readers = lab_regions,
            peak_open = 2\<rparr>"

text \<open>The same manager after \<open>fetch_reads ''S1'' (chr1 0 50)\<close>: a.bam was queried while
  open, then a.bam and b.bam were closed to make room for c.bam and d.bam.\<close>

definition lab2_fetched :: manager where
  "lab2_fetched = \<lparr>max_open_files = 2, num_files = 4,
            closed_readers = [''a.bam'', ''b.bam''],
            open_readers_map = [''c.bam'', ''d.bam''],
            reader_paths_containing_sample = lab_index,
            possible_regions_in_readers = lab_regions,
            peak_open = 2\<rparr>"

text \<open>The manager \<open>lab2\<close> after the multi-sample fetch of sample S2 in \<open>chr1 250 260\<close>.\<close>

definition lab2_fetched_S2 :: manager where
  "lab2_fetched_S2 = \<lparr>max_open_files = 2, num_files = 4,
            closed_readers = [''d.bam'', ''a.bam''],
            open_readers_map = [''b.bam'', ''c.bam''],
            reader_paths_containing_sample = lab_index,
            possible_regions_in_readers = lab_regions,
            peak_open = 2\<rparr>"

text \<open>The manager \<open>lab2\<close> after \<open>fetch_reads ''S2'' (chr1 0 50)\<close>: a.bam has been closed
  to open c.bam, and the two paths of S2 have changed places in the sample index.\<close>

definition lab2_reordered :: manager where
  "lab2_reordered = \<lparr>max_open_files = 2, num_files = 4,
            closed_readers = [''d.bam'', ''a.bam''],
            open_readers_map = [''b.bam'', ''c.bam''],
            reader_paths_containing_sample =
              [(''S1'', [''a.bam'', ''c.bam'', ''d.bam'']), (''S2'', [''c.bam'', ''b.bam''])],
            possible_regions_in_readers = lab_regions,
            peak_open = 2\<rparr>"

text \<open>The manager constructed over the four files with a budget of one open file.\<close>

definition lab1 :: manager where
  "lab1 = \<lparr>max_open_files = 1, num_files = 4,
            closed_readers = [''b.bam'', ''c.bam'', ''d.bam''],
            open_readers_map = [''a.bam''],
            reader_paths_containing_sample = lab_index,
            possible_regions_in_readers = lab_regions,
            peak_open = 1\<rparr>"

text \<open>The manager constructed over the four files with a budget of four open files.\<close>

definition lab4 :: manager where
  "lab4 = \<lparr>max_open_files = 4, num_files = 4,
            closed_readers = [],
            open_readers_map = [''a.bam'', ''b.bam'', ''c.bam'', ''d.bam''],
            reader_paths_containing_sample = lab_index,
            possible_regions_in_readers = lab_regions,
            peak_open = 4\<rparr>"

text \<open>
  A world of three files: x.bam (size 30) and y.bam (size 20) hold sample S, z.bam
  (size 10) holds sample T. \<open>xyz_started\<close> is the manager constructed over them with a
  budget of two, \<open>xyz_fetched\<close> the manager after the multi-sample fetch of S.
\<close>

definition xyz :: world where
  "xyz = \<lparr>fs_exists = (\<lambda>p. p \<in> set [''x.bam'', ''y.bam'', ''z.bam'']),
          fs_file_size = (\<lambda>p. if p = ''x.bam'' then 30 else if p = ''y.bam'' then 20 else 10),
          get_possible_regions_in_file = (\<lambda>p. [chr1 0 100]),
          get_samples_in_file = (\<lambda>p. if p = ''z.bam'' then [''T''] else [''S'']),
          reader_fetch_reads =
            (\<lambda>p r. if p = ''x.bam'' then [(''S'', [1])] else if p = ''y.bam'' then [(''S'', [2])]
                    else [(''T'', [3])])\<rparr>"

definition xyz_started :: manager where
  "xyz_started = \<lparr>max_open_files = 2, num_files = 3,
            closed_readers = [''x.bam''],
            open_readers_map = [''z.bam'', ''y.bam''],
            reader_paths_containing_sample = [(''S'', [''x.bam'', ''y.bam'']), (''T'', [''z.bam''])],
            possible_regions_in_readers =
              [(''x.bam'', [(''chr1'', [(0, 100)])]), (''y.bam'', [(''chr1'', [(0, 100)])]),
               (''z.bam'', [(''chr1'', [(0, 100)])])],
            peak_open = 2\<rparr>"

definition xyz_fetched :: manager where
  "xyz_fetched = xyz_started\<lparr>closed_readers := [''z.bam''], open_readers_map := [''y.bam'', ''x.bam'']\<rparr>"

text \<open>
  A world of two files of the same size, both holding sample S, and the manager
  constructed over them with a budget of two.
\<close>

definition twins :: world where
  "twins = \<lparr>fs_exists = (\<lambda>p. p \<in> set [''x.bam'', ''y.bam'']),
          fs_file_size = (\<lambda>p. 10),
          get_possible_regions_in_file = (\<lambda>p. [chr1 0 100]),
          get_samples_in_file = (\<lambda>p. [''S'']),
          reader_fetch_reads =
            (\<lambda>p r. if p = ''x.bam'' then [(''S'', [1])] else [(''S'', [2])])\<rparr>"

definition twins_started :: manager where
  "twins_started = \<lparr>max_open_files = 2, num_files = 2,
            closed_readers = [],
            open_readers_map = [''x.bam''],
            reader_paths_containing_sample = [(''S'', [''x.bam'', ''y.bam''])],
            possible_regions_in_readers =
              [(''x.bam'', [(''chr1'', [(0, 100)])]), (''y.bam'', [(''chr1'', [(0, 100)])])],
            peak_open = 1\<rparr>"

text \<open>
  A world with a single file whose header scan yields the sub-range \<open>[0, 100)\<close> of chr1
  twice, out of order with another sub-range, and the manager constructed over it.
\<close>

definition dup_world :: world where
  "dup_world = \<lparr>fs_exists = (\<lambda>p. p = ''x.bam''),
          fs_file_size = (\<lambda>p. 10),
          get_possible_regions_in_file =
            (\<lambda>p. if p = ''x.bam''
                  then [chr1 200 300, chr1 0 100,
                        \<lparr>get_contig_name = ''chr2'', get_contig_region = (5, 50)\<rparr>, chr1 0 100]
                  else []),
          get_samples_in_file = (\<lambda>p. if p = ''x.bam'' then [''S1''] else []),
          reader_fetch_reads = (\<lambda>p r. [])\<rparr>"

definition dup_manager :: manager where
  "dup_manager = \<lparr>max_open_files = 1, num_files = 1,
            closed_readers = [],
            open_readers_map = [''x.bam''],
            reader_paths_containing_sample = [(''S1'', [''x.bam''])],
            possible_regions_in_readers =
              [(''x.bam'', [(''chr1'', [(0, 100), (0, 100), (200, 300)]), (''chr2'', [(5, 50)])])],
            peak_open = 1\<rparr>"

section \<open>Properties\<close>

subsection \<open>The ordered map and the pool\<close>

lemma length_map_emplace: "length (map_emplace w k xs) \<le> Suc (length xs)"
  by (induction xs) auto

lemma length_map_erase: "length (map_erase w k xs) \<le> length xs"
  by (induction xs) auto

lemma file_size_compare_irrefl [simp]: "\<not> file_size_compare w p p"
  by (simp add: file_size_compare_def)

lemma map_erase_head: "map_erase w p (p # ps) = ps"
  by simp

lemma close_readers_Returns:
  "close_readers w n m = Returns u m' \<Longrightarrow>
     n \<le> length (open_readers_map m) \<and>
     open_readers_map m' = drop n (open_readers_map m) \<and>
     max_open_files m' = max_open_files m \<and>
     reader_paths_containing_sample m' = reader_paths_containing_sample m \<and>
     possible_regions_in_readers m' = possible_regions_in_readers m \<and>
     peak_open m' = peak_open m"
proof (induction n arbitrary: m)
  case 0
  then show ?case by simp
next
  case (Suc n)
  then obtain p ps where pool: "open_readers_map m = p # ps"
    by (cases "open_readers_map m") (auto simp: choose_reader_to_close_def)
  with Suc.prems have "close_readers w n (close_reader w p m) = Returns u m'"
    by (simp add: choose_reader_to_close_def)
  from Suc.IH [OF this] pool show ?case
    by (simp add: close_reader_def map_erase_head)
qed

lemma close_readers_no_throw: "close_readers w n m \<noteq> Throws e m'"
  by (induction n arbitrary: m)
     (auto simp: choose_reader_to_close_def split: list.splits)

lemma close_readers_defined:
  "n \<le> length (open_readers_map m) \<Longrightarrow> \<exists>m'. close_readers w n m = Returns () m'"
proof (induction n arbitrary: m)
  case 0
  then show ?case by simp
next
  case (Suc n)
  then obtain p ps where pool: "open_readers_map m = p # ps"
    by (cases "open_readers_map m") auto
  with Suc.prems have "n \<le> length (open_readers_map (close_reader w p m))"
    by (simp add: close_reader_def map_erase_head)
  from Suc.IH [OF this] pool show ?case
    by (simp add: choose_reader_to_close_def)
qed

lemma close_readers_undefined:
  "length (open_readers_map m) < n \<Longrightarrow> close_readers w n m = Undefined_behaviour"
proof (induction n arbitrary: m)
  case 0
  then show ?case by simp
next
  case (Suc n)
  show ?case
  proof (cases "open_readers_map m")
    case Nil
    then show ?thesis by (simp add: choose_reader_to_close_def)
  next
    case (Cons p ps)
    with Suc.prems have "length (open_readers_map (close_reader w p m)) < n"
      by (simp add: close_reader_def map_erase_head)
    from Suc.IH [OF this] Cons show ?thesis
      by (simp add: choose_reader_to_close_def)
  qed
qed

lemma emplace_readers_frame:
  "max_open_files (foldl (emplace_reader w) m ps) = max_open_files m \<and>
   reader_paths_containing_sample (foldl (emplace_reader w) m ps) = reader_paths_containing_sample m \<and>
   possible_regions_in_readers (foldl (emplace_reader w) m ps) = possible_regions_in_readers m"
  by (induction ps arbitrary: m) (auto simp: emplace_reader_def)

lemma emplace_readers_budget:
  "length (open_readers_map m) \<le> peak_open m \<Longrightarrow> peak_open m \<le> B \<Longrightarrow>
   length (open_readers_map m) + length ps \<le> B \<Longrightarrow>
   length (open_readers_map (foldl (emplace_reader w) m ps)) \<le> peak_open (foldl (emplace_reader w) m ps)
   \<and> peak_open (foldl (emplace_reader w) m ps) \<le> B"
proof (induction ps arbitrary: m)
  case Nil
  then show ?case by simp
next
  case (Cons p ps)
  have len: "length (map_emplace w p (open_readers_map m)) \<le> Suc (length (open_readers_map m))"
    by (rule length_map_emplace)
  have "length (open_readers_map (emplace_reader w m p)) \<le> peak_open (emplace_reader w m p)"
    by (simp add: emplace_reader_def)
  moreover have "peak_open (emplace_reader w m p) \<le> B"
    using Cons.prems len by (simp add: emplace_reader_def)
  moreover have "length (open_readers_map (emplace_reader w m p)) + length ps \<le> B"
    using Cons.prems len by (simp add: emplace_reader_def)
  ultimately show ?case
    using Cons.IH [of "emplace_reader w m p"] by simp
qed

lemma unat_num_readers_to_close:
  assumes "length (open_readers_map m) \<le> unat (max_open_files m)"
      and "length paths < 2 ^ 32"
  shows "unat (num_readers_to_close m paths) =
           length paths - (unat (max_open_files m) - length (open_readers_map m))"
proof -
  let ?b = "length (open_readers_map m)"
  have b: "unat (of_nat ?b :: 32 word) = ?b"
    using assms(1) by (rule le_unat_uoi)
  have r: "unat (of_nat (length paths) :: 32 word) = length paths"
    using assms(2) by (simp add: unat_of_nat)
  have le: "(of_nat ?b :: 32 word) \<le> max_open_files m"
    using assms(1) b by (simp add: word_le_nat_alt)
  have s: "unat (max_open_files m - of_nat ?b) = unat (max_open_files m) - ?b"
    using unat_sub [OF le] b by simp
  show ?thesis
  proof (cases "(of_nat (length paths) :: 32 word) \<le> max_open_files m - of_nat ?b")
    case True
    then have "length paths \<le> unat (max_open_files m) - ?b"
      using r s by (simp add: word_le_nat_alt)
    with True show ?thesis by (simp add: num_readers_to_close_def)
  next
    case False
    then have "unat (of_nat (length paths) - (max_open_files m - of_nat ?b) :: 32 word)
                 = length paths - (unat (max_open_files m) - ?b)"
      using unat_sub [of "max_open_files m - of_nat ?b" "of_nat (length paths)"] r s
      by simp
    with False show ?thesis by (simp add: num_readers_to_close_def)
  qed
qed

lemma open_readers_budget:
  assumes "within_budget m" and "length paths < 2 ^ 32"
      and "final_state (open_readers w paths m) = Some m'"
  shows "within_budget m' \<and>
         max_open_files m' = max_open_files m \<and>
         reader_paths_containing_sample m' = reader_paths_containing_sample m \<and>
         possible_regions_in_readers m' = possible_regions_in_readers m"
proof -
  let ?n = "unat (num_readers_to_close m paths)"
  let ?a = "unat (max_open_files m)"
  let ?b = "length (open_readers_map m)"
  from assms(1) have ba: "?b \<le> ?a" by (simp add: within_budget_def)
  from assms(3) obtain u mc where mc: "close_readers w ?n m = Returns u mc"
    and m': "m' = foldl (emplace_reader w) mc paths"
    by (auto simp: open_readers_def close_readers_no_throw split: outcome.splits)
  note cr = close_readers_Returns [OF mc]
  have n: "?n = length paths - (?a - ?b)"
    using ba assms(2) by (rule unat_num_readers_to_close)
  have room: "length (open_readers_map mc) + length paths \<le> ?a"
    using cr n ba by auto
  have "length (open_readers_map mc) \<le> peak_open mc"
    using cr assms(1) by (auto simp: within_budget_def)
  moreover have "peak_open mc \<le> ?a"
    using cr assms(1) by (simp add: within_budget_def)
  ultimately have "length (open_readers_map m') \<le> peak_open m' \<and> peak_open m' \<le> ?a"
    unfolding m' using room by (rule emplace_readers_budget)
  then show ?thesis
    using cr emplace_readers_frame [of w mc paths] by (simp add: within_budget_def m')
qed

lemma map_of_entries_le:
  "map_of idx s = Some ps \<Longrightarrow> length ps \<le> length (concat (map snd idx))"
  by (induction idx) (auto split: if_splits)

lemma map_of_set_concat:
  "map_of idx s = Some ps \<Longrightarrow> set ps \<subseteq> set (concat (map snd idx))"
  by (induction idx) (auto split: if_splits)

lemma assign_reader_paths_entries:
  "map_of idx s = Some ps \<Longrightarrow> length ps' = length ps \<Longrightarrow>
   length (concat (map snd (assign_reader_paths s ps' idx))) = length (concat (map snd idx))"
  by (induction idx) (auto split: if_splits)

lemma map_of_assign_reader_paths:
  "map_of idx s = Some ps \<Longrightarrow>
   map_of (assign_reader_paths s ps' idx) s' = (if s' = s then Some ps' else map_of idx s')"
  by (induction idx) (auto split: if_splits)

lemma keys_assign_reader_paths:
  "map fst (assign_reader_paths s ps' idx) = map fst idx"
  by (induction idx) auto

lemma fetch_reads_shape:
  assumes "final_state (fetch_reads w sample region m) = Some m'"
  shows "(map_of (reader_paths_containing_sample m) sample = None \<and> m' = m) \<or>
         (\<exists>reader_paths m1.
            map_of (reader_paths_containing_sample m) sample = Some reader_paths \<and>
            m1 = m\<lparr>reader_paths_containing_sample :=
                     assign_reader_paths sample
                       (filter (is_open w m) (filter (\<lambda>p. could_reader_contain_region m p region) reader_paths) @
                        filter (Not \<circ> is_open w m) (filter (\<lambda>p. could_reader_contain_region m p region) reader_paths) @
                        filter (Not \<circ> (\<lambda>p. could_reader_contain_region m p region)) reader_paths)
                       (reader_paths_containing_sample m)\<rparr> \<and>
            (m' = m1 \<or>
             final_state (open_readers w
                (filter (Not \<circ> is_open w m) (filter (\<lambda>p. could_reader_contain_region m p region) reader_paths)) m1)
               = Some m'))"
  using assms
  by (auto simp: fetch_reads_def Let_def split: option.splits outcome.splits)

lemma get_reader_paths_distinct:
  "get_reader_paths_containing_samples m samples acc = Some ps \<Longrightarrow> distinct acc \<Longrightarrow>
   distinct ps \<and> set ps \<subseteq> set acc \<union> set (concat (map snd (reader_paths_containing_sample m)))"
proof (induction samples arbitrary: acc)
  case Nil
  then show ?case by auto
next
  case (Cons s samples)
  then obtain srp where srp: "map_of (reader_paths_containing_sample m) s = Some srp"
    and rest: "get_reader_paths_containing_samples m samples
                 (foldl (\<lambda>s p. uset_insert p s) acc srp) = Some ps"
    by (auto split: option.splits)
  have ins: "distinct (foldl (\<lambda>s p. uset_insert p s) a xs) \<and>
             set (foldl (\<lambda>s p. uset_insert p s) a xs) = set a \<union> set xs" if "distinct a" for a xs
    using that by (induction xs arbitrary: a) (auto simp: uset_insert_def)
  from ins [OF Cons.prems(2), of srp] Cons.IH [OF rest] map_of_set_concat [OF srp]
  show ?case by auto
qed

lemma distinct_subset_length:
  "distinct xs \<Longrightarrow> set xs \<subseteq> set ys \<Longrightarrow> length xs \<le> length ys"
  by (metis card_length card_mono distinct_card List.finite_set le_trans)

lemma fetch_reads_samples_shape:
  assumes "final_state (fetch_reads_samples w samples region m) = Some m'"
  shows "(get_reader_paths_containing_samples m samples [] = None \<and> m' = m) \<or>
         (\<exists>reader_paths.
            get_reader_paths_containing_samples m samples [] = Some reader_paths \<and>
            (m' = m \<or>
             final_state (open_readers w
                (filter (Not \<circ> is_open w m) (filter (\<lambda>p. could_reader_contain_region m p region) reader_paths)) m)
               = Some m'))"
  using assms
  by (auto simp: fetch_reads_samples_def Let_def split: option.splits outcome.splits)

lemma fetch_reads_budget:
  assumes "within_budget m" and "index_entries m < 2 ^ 32"
      and "final_state (fetch_reads w sample region m) = Some m'"
  shows "within_budget m' \<and> index_entries m' = index_entries m \<and>
         max_open_files m' = max_open_files m"
proof -
  from fetch_reads_shape [OF assms(3)] consider
    (unknown) "m' = m"
  | (known) reader_paths m1 where
      "map_of (reader_paths_containing_sample m) sample = Some reader_paths"
      "m1 = m\<lparr>reader_paths_containing_sample :=
                 assign_reader_paths sample
                   (filter (is_open w m) (filter (\<lambda>p. could_reader_contain_region m p region) reader_paths) @
                    filter (Not \<circ> is_open w m) (filter (\<lambda>p. could_reader_contain_region m p region) reader_paths) @
                    filter (Not \<circ> (\<lambda>p. could_reader_contain_region m p region)) reader_paths)
                   (reader_paths_containing_sample m)\<rparr>"
      "m' = m1 \<or>
       final_state (open_readers w
          (filter (Not \<circ> is_open w m) (filter (\<lambda>p. could_reader_contain_region m p region) reader_paths)) m1)
         = Some m'"
    by blast
  then show ?thesis
  proof cases
    case unknown
    with assms show ?thesis by simp
  next
    case (known reader_paths m1)
    let ?C = "filter (\<lambda>p. could_reader_contain_region m p region) reader_paths"
    let ?U = "filter (Not \<circ> is_open w m) ?C"
    let ?new = "filter (is_open w m) ?C @ ?U @
                filter (Not \<circ> (\<lambda>p. could_reader_contain_region m p region)) reader_paths"
    from known have rp: "map_of (reader_paths_containing_sample m) sample = Some reader_paths"
      and m1: "m1 = m\<lparr>reader_paths_containing_sample :=
                 assign_reader_paths sample ?new (reader_paths_containing_sample m)\<rparr>"
      and m': "m' = m1 \<or> final_state (open_readers w ?U m1) = Some m'"
      by simp_all
    have len: "length ?new = length reader_paths"
      using sum_length_filter_compl [of "is_open w m" ?C]
            sum_length_filter_compl [of "\<lambda>p. could_reader_contain_region m p region" reader_paths]
      by (simp add: comp_def)
    have e1: "index_entries m1 = index_entries m"
      using assign_reader_paths_entries [OF rp len] by (simp add: index_entries_def m1)
    have b1: "within_budget m1"
      using assms(1) by (simp add: within_budget_def m1)
    have mx1: "max_open_files m1 = max_open_files m"
      by (simp add: m1)
    have "length ?U \<le> length reader_paths"
      by (meson length_filter_le le_trans)
    also have "\<dots> \<le> index_entries m"
      using map_of_entries_le [OF rp] by (simp add: index_entries_def)
    finally have small: "length ?U < 2 ^ 32"
      using assms(2) by linarith
    from m' show ?thesis
    proof
      assume "m' = m1"
      with e1 b1 mx1 show ?thesis by simp
    next
      assume "final_state (open_readers w ?U m1) = Some m'"
      from open_readers_budget [OF b1 small this] e1 mx1 show ?thesis
        by (simp add: index_entries_def)
    qed
  qed
qed

lemma fetch_reads_samples_budget:
  assumes "within_budget m" and "index_entries m < 2 ^ 32"
      and "final_state (fetch_reads_samples w samples region m) = Some m'"
  shows "within_budget m' \<and> index_entries m' = index_entries m \<and>
         max_open_files m' = max_open_files m"
proof -
  from fetch_reads_samples_shape [OF assms(3)] consider
    (same) "m' = m"
  | (opened) reader_paths where
      "get_reader_paths_containing_samples m samples [] = Some reader_paths"
      "final_state (open_readers w
          (filter (Not \<circ> is_open w m) (filter (\<lambda>p. could_reader_contain_region m p region) reader_paths)) m)
         = Some m'"
    by blast
  then show ?thesis
  proof cases
    case same
    with assms show ?thesis by simp
  next
    case (opened reader_paths)
    let ?C = "filter (\<lambda>p. could_reader_contain_region m p region) reader_paths"
    let ?U = "filter (Not \<circ> is_open w m) ?C"
    from opened have rp: "get_reader_paths_containing_samples m samples [] = Some reader_paths"
      and m': "final_state (open_readers w ?U m) = Some m'"
      by simp_all
    from get_reader_paths_distinct [OF rp] have "length reader_paths \<le> index_entries m"
      by (simp add: index_entries_def distinct_subset_length)
    moreover have "length ?U \<le> length reader_paths"
      by (meson length_filter_le le_trans)
    ultimately have small: "length ?U < 2 ^ 32"
      using assms(2) by linarith
    from open_readers_budget [OF assms(1) small m'] show ?thesis
      by (simp add: index_entries_def)
  qed
qed

lemma open_reader_budget:
  assumes "within_budget m" and "final_state (open_reader w p m) = Some m'"
  shows "within_budget m' \<and> reader_paths_containing_sample m' = reader_paths_containing_sample m \<and>
         max_open_files m' = max_open_files m"
proof (cases "length (open_readers_map m) = unat (max_open_files m)")
  case True
  with assms(2) obtain q qs where pool: "open_readers_map m = q # qs"
    and m': "m' = emplace_reader w (close_reader w q m) p"
    by (auto simp: open_reader_def choose_reader_to_close_def split: list.splits)
  have "length (map_emplace w p qs) \<le> Suc (length qs)"
    by (rule length_map_emplace)
  with True assms(1) pool show ?thesis
    by (auto simp: m' within_budget_def emplace_reader_def close_reader_def)
next
  case False
  with assms(2) have m': "m' = emplace_reader w m p"
    by (simp add: open_reader_def)
  have "length (map_emplace w p (open_readers_map m)) \<le> Suc (length (open_readers_map m))"
    by (rule length_map_emplace)
  with False assms(1) show ?thesis
    by (auto simp: m' within_budget_def emplace_reader_def)
qed

lemma close_reader_budget:
  "within_budget m \<Longrightarrow> within_budget (close_reader w p m)"
  using length_map_erase [of w p "open_readers_map m"]
  by (simp add: within_budget_def close_reader_def)

lemma do_call_budget:
  assumes "within_budget m" and "index_entries m < 2 ^ 32" and "do_call w c m = Some m'"
  shows "within_budget m' \<and> index_entries m' = index_entries m \<and>
         max_open_files m' = max_open_files m"
proof (cases c)
  case (Open_reader p)
  with assms open_reader_budget [of m w p m'] show ?thesis
    by (simp add: index_entries_def)
next
  case (Close_reader p)
  with assms close_reader_budget [of m w p] show ?thesis
    by (auto simp: index_entries_def close_reader_def)
next
  case (Fetch_reads s r)
  with assms fetch_reads_budget [of m w s r m'] show ?thesis by simp
next
  case (Fetch_reads_samples ss r)
  with assms fetch_reads_samples_budget [of m w ss r m'] show ?thesis by simp
next
  case (Fetch_reads_all r)
  with assms fetch_reads_samples_budget
    [of m w "map fst (reader_paths_containing_sample m)" r m'] show ?thesis
    by (simp add: fetch_reads_all_def)
next
  case Get_samples
  with assms show ?thesis by (simp add: get_samples_def)
qed

lemma do_calls_budget:
  "within_budget m \<Longrightarrow> index_entries m < 2 ^ 32 \<Longrightarrow> do_calls w cs m = Some m' \<Longrightarrow>
   within_budget m' \<and> index_entries m' = index_entries m \<and>
   max_open_files m' = max_open_files m"
proof (induction cs arbitrary: m)
  case Nil
  then show ?case by simp
next
  case (Cons c cs)
  then obtain m1 where c: "do_call w c m = Some m1" and cs: "do_calls w cs m1 = Some m'"
    by (auto split: option.splits)
  from do_call_budget [OF Cons.prems(1,2) c]
  have 1: "within_budget m1" and 2: "index_entries m1 = index_entries m"
    and 3: "max_open_files m1 = max_open_files m"
    by simp_all
  from 2 Cons.prems(2) have "index_entries m1 < 2 ^ 32" by simp
  from Cons.IH [OF 1 this cs] 2 3 show ?case
    by simp
qed

lemma scan_reader_frame:
  "open_readers_map (scan_reader w m p) = open_readers_map m \<and>
   peak_open (scan_reader w m p) = peak_open m \<and>
   max_open_files (scan_reader w m p) = max_open_files m \<and>
   closed_readers (scan_reader w m p) = closed_readers m"
  by (simp add: scan_reader_def add_reader_to_sample_map_def add_possible_regions_to_reader_map_def)

lemma scan_readers_frame:
  "open_readers_map (foldl (scan_reader w) m ps) = open_readers_map m \<and>
   peak_open (foldl (scan_reader w) m ps) = peak_open m \<and>
   max_open_files (foldl (scan_reader w) m ps) = max_open_files m \<and>
   closed_readers (foldl (scan_reader w) m ps) = closed_readers m"
  by (induction ps arbitrary: m) (simp_all add: scan_reader_frame)

lemma ReadManager_budget:
  assumes "ReadManager w read_file_paths max_open = Returns u m0"
  shows "within_budget m0 \<and> max_open_files m0 = max_open"
proof -
  define init where "init = new_manager read_file_paths max_open"
  define scanned where "scanned = setup_reader_samples_and_regions w init"
  define k where "k = min (max_open_files scanned) (of_nat (length (closed_readers scanned)))"
  define batch where "batch = take (unat k) (nth_element w (unat k) (closed_readers scanned))"
  have fr: "open_readers_map scanned = [] \<and> peak_open scanned = 0 \<and>
            max_open_files scanned = max_open"
    using scan_readers_frame [of w init "closed_readers init"]
    by (simp add: scanned_def setup_reader_samples_and_regions_def init_def new_manager_def)
  then have b: "within_budget scanned"
    by (simp add: within_budget_def)
  from assms have "open_readers w batch scanned = Returns u m0"
    by (simp add: ReadManager_def setup_manager_def Let_def open_initial_files_def
        init_def [symmetric] scanned_def [symmetric] k_def [symmetric] batch_def [symmetric]
        split: if_splits)
  then have fs: "final_state (open_readers w batch scanned) = Some m0"
    by simp
  have "length batch \<le> unat k"
    by (simp add: batch_def)
  also have "unat k < 2 ^ 32"
    using unsigned_less [of k, where ?'a = nat] by simp
  finally have small: "length batch < 2 ^ 32" .
  from open_readers_budget [OF b small fs] fr show ?thesis
    by simp
qed

lemma lab2_constructed: "ReadManager lab lab_paths 2 = Returns () lab2"
  by code_simp

text \<open>
  While a run stays defined the budget is kept: for every sequence of open, close and
  fetch calls on a constructed manager that ends in a state, the number of open readers
  in that state is at most the budget, and the map of open readers never held more than
  the budget at any intermediate point of any call so far (\<open>peak_open\<close>). The counts
  of the C++ code are 32-bit: the sample index is assumed to hold fewer than
  \<open>2 ^ 32\<close> paths. The runs this leaves out are those in which a fetch hands
  open_readers a batch larger than the budget (\<open>open_readers_defined_iff\<close> below).
\<close>

lemma budget_kept_while_defined:
  assumes "ReadManager w read_file_paths max_open = Returns u m0"
      and "index_entries m0 < 2 ^ 32"
      and "do_calls w calls m0 = Some m"
  shows "length (open_readers_map m) \<le> unat max_open \<and> peak_open m \<le> unat max_open"
proof -
  from ReadManager_budget [OF assms(1)]
  have b: "within_budget m0" and mx: "max_open_files m0 = max_open"
    by simp_all
  from do_calls_budget [OF b assms(2,3)] mx show ?thesis
    by (auto simp: within_budget_def)
qed

lemma budget_kept_while_defined_example:
  "ReadManager lab lab_paths 2 = Returns () lab2 \<and>
   index_entries lab2 < 2 ^ 32 \<and>
   do_calls lab [Fetch_reads ''S1'' (chr1 0 50),
                 Fetch_reads_samples [''S1'', ''S2''] (chr1 250 260),
                 Close_reader ''d.bam'',
                 Open_reader ''a.bam'',
                 Fetch_reads_all (chr1 0 300)] lab2
     = Some \<lparr>max_open_files = 2, num_files = 4,
              closed_readers = [''a.bam'', ''b.bam''],
              open_readers_map = [''c.bam'', ''d.bam''],
              reader_paths_containing_sample = lab_index,
              possible_regions_in_readers = lab_regions,
              peak_open = 2\<rparr> \<and>
   length [''c.bam'', ''d.bam''] \<le> unat (2 :: 32 word) \<and> (2 :: nat) \<le> unat (2 :: 32 word)"
proof -
  have c: "ReadManager lab lab_paths 2 = Returns () lab2"
    by code_simp
  have e: "index_entries lab2 < 2 ^ 32"
    by (simp add: index_entries_def lab2_def lab_index_def)
  have d: "do_calls lab [Fetch_reads ''S1'' (chr1 0 50),
                 Fetch_reads_samples [''S1'', ''S2''] (chr1 250 260),
                 Close_reader ''d.bam'',
                 Open_reader ''a.bam'',
                 Fetch_reads_all (chr1 0 300)] lab2
     = Some \<lparr>max_open_files = 2, num_files = 4,
              closed_readers = [''a.bam'', ''b.bam''],
              open_readers_map = [''c.bam'', ''d.bam''],
              reader_paths_containing_sample = lab_index,
              possible_regions_in_readers = lab_regions,
              peak_open = 2\<rparr>"
    by code_simp
  from budget_kept_while_defined [OF c e d] c e d show ?thesis
    by simp
qed

subsection \<open>The eviction victim\<close>

lemma set_map_emplace: "set (map_emplace w k xs) \<subseteq> insert k (set xs)"
  by (induction xs) auto

lemma set_map_erase: "set (map_erase w k xs) \<subseteq> set xs"
  by (induction xs) auto

lemma sorted_map_emplace:
  "sorted_wrt (file_size_compare w) xs \<Longrightarrow> sorted_wrt (file_size_compare w) (map_emplace w k xs)"
proof (induction xs)
  case Nil
  then show ?case by simp
next
  case (Cons x xs)
  have "file_size_compare w x y" if "file_size_compare w x k" "y \<in> set (map_emplace w k xs)" for y
    using that Cons.prems set_map_emplace [of w k xs] by auto
  moreover have "file_size_compare w k y" if "file_size_compare w k x" "y \<in> set xs" for y
    using that Cons.prems by (auto simp: file_size_compare_def)
  ultimately show ?case
    using Cons by auto
qed

lemma sorted_map_erase:
  "sorted_wrt (file_size_compare w) xs \<Longrightarrow> sorted_wrt (file_size_compare w) (map_erase w k xs)"
proof (induction xs)
  case Nil
  then show ?case by simp
next
  case (Cons x xs)
  then show ?case
    using set_map_erase [of w k xs] by auto
qed

lemma sorted_drop:
  "sorted_wrt P xs \<Longrightarrow> sorted_wrt P (drop n xs)"
  by (metis append_take_drop_id sorted_wrt_append)

lemma emplace_readers_sorted:
  "pool_sorted w m \<Longrightarrow> pool_sorted w (foldl (emplace_reader w) m ps)"
  by (induction ps arbitrary: m) (auto simp: pool_sorted_def emplace_reader_def sorted_map_emplace)

lemma open_readers_sorted:
  assumes "pool_sorted w m" and "final_state (open_readers w paths m) = Some m'"
  shows "pool_sorted w m'"
proof -
  from assms(2) obtain u mc
    where mc: "close_readers w (unat (num_readers_to_close m paths)) m = Returns u mc"
      and m': "m' = foldl (emplace_reader w) mc paths"
    by (auto simp: open_readers_def close_readers_no_throw split: outcome.splits)
  from close_readers_Returns [OF mc] assms(1) have "pool_sorted w mc"
    by (simp add: pool_sorted_def sorted_drop)
  then show ?thesis
    unfolding m' by (rule emplace_readers_sorted)
qed

lemma open_reader_sorted:
  assumes "pool_sorted w m" and "final_state (open_reader w p m) = Some m'"
  shows "pool_sorted w m'"
proof (cases "length (open_readers_map m) = unat (max_open_files m)")
  case True
  with assms(2) obtain q qs where pool: "open_readers_map m = q # qs"
    and m': "m' = emplace_reader w (close_reader w q m) p"
    by (auto simp: open_reader_def choose_reader_to_close_def split: list.splits)
  from assms(1) pool have "sorted_wrt (file_size_compare w) qs"
    by (simp add: pool_sorted_def)
  then show ?thesis
    using pool by (simp add: m' pool_sorted_def emplace_reader_def close_reader_def sorted_map_emplace)
next
  case False
  with assms(2) have m': "m' = emplace_reader w m p"
    by (simp add: open_reader_def)
  from assms(1) show ?thesis
    by (simp add: m' pool_sorted_def emplace_reader_def sorted_map_emplace)
qed

lemma do_call_sorted:
  assumes "pool_sorted w m" and "do_call w c m = Some m'"
  shows "pool_sorted w m'"
proof (cases c)
  case (Open_reader p)
  with assms open_reader_sorted [of w m p m'] show ?thesis by simp
next
  case (Close_reader p)
  with assms show ?thesis
    by (auto simp: pool_sorted_def close_reader_def sorted_map_erase)
next
  case (Fetch_reads s r)
  with assms(2) have fs: "final_state (fetch_reads w s r m) = Some m'" by simp
  from fetch_reads_shape [OF fs] assms(1) show ?thesis
    by (auto simp: pool_sorted_def intro: open_readers_sorted [unfolded pool_sorted_def, rotated])
next
  case (Fetch_reads_samples ss r)
  with assms(2) have fs: "final_state (fetch_reads_samples w ss r m) = Some m'" by simp
  from fetch_reads_samples_shape [OF fs] assms(1) show ?thesis
    by (auto intro: open_readers_sorted)
next
  case (Fetch_reads_all r)
  with assms(2) have fs: "final_state (fetch_reads_samples w
     (map fst (reader_paths_containing_sample m)) r m) = Some m'"
    by (simp add: fetch_reads_all_def)
  from fetch_reads_samples_shape [OF fs] assms(1) show ?thesis
    by (auto intro: open_readers_sorted)
next
  case Get_samples
  with assms show ?thesis by (simp add: get_samples_def)
qed

lemma do_calls_sorted:
  "pool_sorted w m \<Longrightarrow> do_calls w cs m = Some m' \<Longrightarrow> pool_sorted w m'"
proof (induction cs arbitrary: m)
  case Nil
  then show ?case by simp
next
  case (Cons c cs)
  then obtain m1 where c: "do_call w c m = Some m1" and cs: "do_calls w cs m1 = Some m'"
    by (auto split: option.splits)
  from do_call_sorted [OF Cons.prems(1) c] cs Cons.IH show ?case
    by blast
qed

lemma ReadManager_sorted:
  assumes "ReadManager w read_file_paths max_open = Returns u m0"
  shows "pool_sorted w m0"
proof -
  define init where "init = new_manager read_file_paths max_open"
  define scanned where "scanned = setup_reader_samples_and_regions w init"
  define k where "k = min (max_open_files scanned) (of_nat (length (closed_readers scanned)))"
  define batch where "batch = take (unat k) (nth_element w (unat k) (closed_readers scanned))"
  have "open_readers_map scanned = []"
    using scan_readers_frame [of w init "closed_readers init"]
    by (simp add: scanned_def setup_reader_samples_and_regions_def init_def new_manager_def)
  then have b: "pool_sorted w scanned"
    by (simp add: pool_sorted_def)
  from assms have "open_readers w batch scanned = Returns u m0"
    by (simp add: ReadManager_def setup_manager_def Let_def open_initial_files_def
        init_def [symmetric] scanned_def [symmetric] k_def [symmetric] batch_def [symmetric]
        split: if_splits)
  then have "final_state (open_readers w batch scanned) = Some m0"
    by simp
  with b show ?thesis
    by (rule open_readers_sorted)
qed

lemma sorted_hd_min:
  "sorted_wrt (file_size_compare w) xs \<Longrightarrow> q \<in> set xs \<Longrightarrow> q \<noteq> hd xs \<Longrightarrow>
   fs_file_size w (hd xs) < fs_file_size w q"
  by (cases xs) (auto simp: file_size_compare_def)

text \<open>
  C5. Whenever an eviction victim is chosen from a non-empty pool, it is the first key in
  the iteration order of the size-ordered map of open readers, and no open reader has a
  smaller file size. Since keys of equal size are one key for the map, every other open
  reader is strictly larger: the map never holds a tie. The theorem covers every state
  in which the code chooses a victim: \<open>m\<close> is the manager after any sequence of calls
  and \<open>m'\<close> any state whose pool is what is left of the pool of \<open>m\<close> after \<open>j\<close>
  evictions, whatever its other members hold.
\<close>

theorem victim_is_smallest_open:
  assumes "ReadManager w read_file_paths max_open = Returns u m0"
      and "do_calls w calls m0 = Some m"
      and "open_readers_map m' = drop j (open_readers_map m)"
      and "open_readers_map m' \<noteq> []"
  shows "choose_reader_to_close m' = Returns (hd (open_readers_map m')) m' \<and>
         hd (open_readers_map m') \<in> set (open_readers_map m') \<and>
         (\<forall>q \<in> set (open_readers_map m').
            fs_file_size w (hd (open_readers_map m')) \<le> fs_file_size w q \<and>
            (q \<noteq> hd (open_readers_map m') \<longrightarrow>
               fs_file_size w (hd (open_readers_map m')) < fs_file_size w q))"
proof -
  from do_calls_sorted [OF ReadManager_sorted [OF assms(1)] assms(2)]
  have "sorted_wrt (file_size_compare w) (open_readers_map m')"
    by (simp add: pool_sorted_def assms(3) sorted_drop)
  from sorted_hd_min [OF this] assms(4) show ?thesis
    by (cases "open_readers_map m'") (auto simp: choose_reader_to_close_def intro: less_imp_le)
qed

theorem victim_is_smallest_open_witness:
  "ReadManager lab lab_paths 2 = Returns () lab2 \<and>
   do_calls lab [Fetch_reads ''S1'' (chr1 0 50)] lab2 = Some lab2_fetched \<and>
   open_readers_map (lab2_fetched\<lparr>open_readers_map := [''d.bam'']\<rparr>)
     = drop 1 (open_readers_map lab2_fetched) \<and>
   open_readers_map lab2_fetched = drop 0 (open_readers_map lab2_fetched) \<and>
   choose_reader_to_close lab2_fetched = Returns ''c.bam'' lab2_fetched \<and>
   fs_file_size lab ''c.bam'' < fs_file_size lab ''d.bam'' \<and>
   choose_reader_to_close (lab2_fetched\<lparr>open_readers_map := [''d.bam'']\<rparr>)
     = Returns ''d.bam'' (lab2_fetched\<lparr>open_readers_map := [''d.bam'']\<rparr>)"
proof -
  have c: "ReadManager lab lab_paths 2 = Returns () lab2"
    by code_simp
  have d: "do_calls lab [Fetch_reads ''S1'' (chr1 0 50)] lab2 = Some lab2_fetched"
    by code_simp
  have p0: "open_readers_map lab2_fetched = drop 0 (open_readers_map lab2_fetched)"
    by simp
  have p1: "open_readers_map (lab2_fetched\<lparr>open_readers_map := [''d.bam'']\<rparr>)
              = drop 1 (open_readers_map lab2_fetched)"
    by (simp add: lab2_fetched_def)
  have n0: "open_readers_map lab2_fetched \<noteq> []"
    by (simp add: lab2_fetched_def)
  have n1: "open_readers_map (lab2_fetched\<lparr>open_readers_map := [''d.bam'']\<rparr>) \<noteq> []"
    by simp
  have pool: "open_readers_map lab2_fetched = [''c.bam'', ''d.bam'']"
    by (simp add: lab2_fetched_def)
  from victim_is_smallest_open [OF c d p0 n0] victim_is_smallest_open [OF c d p1 n1]
  show ?thesis
    using c d p0 p1 by (simp add: pool)
qed

text \<open>
  When the open readers are within the budget, a batch opening is defined exactly when
  the batch is no larger than the budget; a larger batch always asks for more evictions
  than there are open readers.
\<close>

lemma open_readers_defined_iff:
  assumes "within_budget m" and "length paths < 2 ^ 32"
  shows "(\<exists>m'. open_readers w paths m = Returns () m')
           = (length paths \<le> unat (max_open_files m))"
    and "(open_readers w paths m = Undefined_behaviour)
           = (unat (max_open_files m) < length paths)"
proof -
  let ?n = "unat (num_readers_to_close m paths)"
  from assms(1) have ba: "length (open_readers_map m) \<le> unat (max_open_files m)"
    by (simp add: within_budget_def)
  then have n: "?n = length paths - (unat (max_open_files m) - length (open_readers_map m))"
    using assms(2) by (rule unat_num_readers_to_close)
  show "(\<exists>m'. open_readers w paths m = Returns () m')
           = (length paths \<le> unat (max_open_files m))"
  proof (cases "?n \<le> length (open_readers_map m)")
    case True
    from close_readers_defined [OF this, of w] obtain mc
      where "close_readers w ?n m = Returns () mc"
      by blast
    then have "\<exists>m'. open_readers w paths m = Returns () m'"
      by (simp add: open_readers_def)
    moreover from True n ba have "length paths \<le> unat (max_open_files m)"
      by arith
    ultimately show ?thesis by simp
  next
    case False
    then have "close_readers w ?n m = Undefined_behaviour"
      by (simp add: close_readers_undefined)
    then have "open_readers w paths m = Undefined_behaviour"
      by (simp add: open_readers_def)
    moreover from False n ba have "\<not> length paths \<le> unat (max_open_files m)"
      by arith
    ultimately show ?thesis by simp
  qed
  show "(open_readers w paths m = Undefined_behaviour)
           = (unat (max_open_files m) < length paths)"
  proof (cases "?n \<le> length (open_readers_map m)")
    case True
    from close_readers_defined [OF this, of w] obtain mc
      where "close_readers w ?n m = Returns () mc"
      by blast
    then have "open_readers w paths m \<noteq> Undefined_behaviour"
      by (simp add: open_readers_def)
    moreover from True n ba have "\<not> unat (max_open_files m) < length paths"
      by arith
    ultimately show ?thesis by simp
  next
    case False
    then have "close_readers w ?n m = Undefined_behaviour"
      by (simp add: close_readers_undefined)
    then have "open_readers w paths m = Undefined_behaviour"
      by (simp add: open_readers_def)
    moreover from False n ba have "unat (max_open_files m) < length paths"
      by arith
    ultimately show ?thesis by simp
  qed
qed

text \<open>
  C1. The claim is that the number of open readers is at most the budget after every
  operation and at every intermediate point of a fetch, for every sequence of calls, the
  batch opening of a fetch included. It fails where the batch is larger than the budget:
  open_readers has no case for it. With a budget of one open file, a.bam is open after
  construction and a fetch for sample S1 hands c.bam and d.bam to open_readers. The pool
  allows one eviction where two are asked for, so the call has no defined state, whichever
  fetch overload is used; and the loop that follows the evictions emplaces every path of
  the batch, so that after the one eviction the pool allows it makes a pool of two
  readers, c.bam and d.bam, with a budget of one.
\<close>

theorem batch_larger_than_budget_breaks_budget:
  "ReadManager lab lab_paths 1 = Returns () lab1 \<and>
   unat (max_open_files lab1) = 1 \<and>
   open_readers_map lab1 = [''a.bam''] \<and>
   do_calls lab [Fetch_reads ''S1'' (chr1 0 50)] lab1 = None \<and>
   do_calls lab [Fetch_reads_samples [''S1''] (chr1 0 50)] lab1 = None \<and>
   do_calls lab [Fetch_reads_all (chr1 0 300)] lab1 = None \<and>
   final_state (open_readers lab [''c.bam'', ''d.bam''] lab1) = None \<and>
   close_readers lab 1 lab1
     = Returns () (lab1\<lparr>open_readers_map := [],
                         closed_readers := [''b.bam'', ''c.bam'', ''d.bam'', ''a.bam'']\<rparr>) \<and>
   open_readers_map
     (foldl (emplace_reader lab)
        (lab1\<lparr>open_readers_map := [],
              closed_readers := [''b.bam'', ''c.bam'', ''d.bam'', ''a.bam'']\<rparr>)
        [''c.bam'', ''d.bam''])
     = [''c.bam'', ''d.bam''] \<and>
   unat (max_open_files lab1) < length [''c.bam'', ''d.bam'']"
  by code_simp

text \<open>
  C10. The claim is that eviction never meets an empty pool, for every batch size of a
  fetch. It fails: with a budget of one open file and three files that hold sample S1 in
  the region asked for, one file is open and the fetch hands the other two to
  open_readers, which asks close_readers for two evictions. The second eviction reads
  \<open>begin()\<close> of the empty map.
\<close>

theorem batch_larger_than_budget_undefined:
  "ReadManager lab lab_paths 1 = Returns () lab1 \<and>
   length (open_readers_map lab1) = 1 \<and>
   unat (num_readers_to_close lab1 [''c.bam'', ''d.bam'']) = 2 \<and>
   close_readers lab 2 lab1 = Undefined_behaviour \<and>
   fetch_reads lab ''S1'' (chr1 0 50) lab1 = Undefined_behaviour \<and>
   fetch_reads_samples lab [''S1''] (chr1 0 50) lab1 = Undefined_behaviour"
  by code_simp

subsection \<open>What a fetch opens\<close>

lemma emplace_readers_pool:
  "set (open_readers_map (foldl (emplace_reader w) m ps)) \<subseteq> set (open_readers_map m) \<union> set ps"
proof (induction ps arbitrary: m)
  case Nil
  then show ?case by simp
next
  case (Cons p ps)
  have "set (open_readers_map (emplace_reader w m p)) \<subseteq> insert p (set (open_readers_map m))"
    by (simp add: emplace_reader_def set_map_emplace)
  with Cons.IH [of "emplace_reader w m p"] show ?case
    by auto
qed

lemma open_readers_pool:
  assumes "final_state (open_readers w paths m) = Some m'"
  shows "set (open_readers_map m') \<subseteq> set (open_readers_map m) \<union> set paths"
proof -
  from assms obtain u mc
    where mc: "close_readers w (unat (num_readers_to_close m paths)) m = Returns u mc"
      and m': "m' = foldl (emplace_reader w) mc paths"
    by (auto simp: open_readers_def close_readers_no_throw split: outcome.splits)
  from close_readers_Returns [OF mc]
  have "set (open_readers_map mc) \<subseteq> set (open_readers_map m)"
    by (simp add: set_drop_subset)
  with emplace_readers_pool [of w mc paths] show ?thesis
    unfolding m' by blast
qed


lemma get_reader_paths_unknown:
  "s \<in> set samples \<Longrightarrow> map_of (reader_paths_containing_sample m) s = None \<Longrightarrow>
   get_reader_paths_containing_samples m samples acc = None"
  by (induction samples arbitrary: acc) (auto split: option.splits)



text \<open>
  C3. A fetch for a sample that is not a key of the sample index (not among
  \<open>get_samples\<close>) throws std::out_of_range and leaves the manager exactly as it was:
  nothing is opened, closed or reordered. The same holds for the multi-sample fetch when
  any requested sample is unknown.
\<close>

theorem unknown_sample_throws:
  "(sample \<notin> set (map fst (reader_paths_containing_sample m)) \<longrightarrow>
      fetch_reads w sample region m = Throws Out_of_range m) \<and>
   ((\<exists>s \<in> set samples. s \<notin> set (map fst (reader_paths_containing_sample m))) \<longrightarrow>
      fetch_reads_samples w samples region m = Throws Out_of_range m)"
proof (intro conjI impI)
  assume "sample \<notin> set (map fst (reader_paths_containing_sample m))"
  then have "map_of (reader_paths_containing_sample m) sample = None"
    by (simp add: map_of_eq_None_iff)
  then show "fetch_reads w sample region m = Throws Out_of_range m"
    by (simp add: fetch_reads_def)
next
  assume "\<exists>s \<in> set samples. s \<notin> set (map fst (reader_paths_containing_sample m))"
  then obtain s where "s \<in> set samples" "map_of (reader_paths_containing_sample m) s = None"
    by (auto simp: map_of_eq_None_iff)
  then have "get_reader_paths_containing_samples m samples [] = None"
    by (rule get_reader_paths_unknown)
  then show "fetch_reads_samples w samples region m = Throws Out_of_range m"
    by (simp add: fetch_reads_samples_def)
qed

theorem unknown_sample_throws_witness:
  "''S99'' \<notin> set (map fst (reader_paths_containing_sample lab2)) \<and>
   fetch_reads lab ''S99'' (chr1 0 50) lab2 = Throws Out_of_range lab2 \<and>
   fetch_reads_samples lab [''S1'', ''S99''] (chr1 0 50) lab2 = Throws Out_of_range lab2"
proof -
  have k: "''S99'' \<notin> set (map fst (reader_paths_containing_sample lab2))"
    by (simp add: lab2_def lab_index_def)
  then have "\<exists>s \<in> set [''S1'', ''S99'']. s \<notin> set (map fst (reader_paths_containing_sample lab2))"
    by simp
  with unknown_sample_throws [of "''S99''" lab2 lab "chr1 0 50" "[''S1'', ''S99'']"] k
  show ?thesis
    by blast
qed

subsection \<open>Construction\<close>

lemma uset_fold:
  "distinct a \<Longrightarrow> distinct (foldl (\<lambda>s x. uset_insert x s) a xs) \<and>
     set (foldl (\<lambda>s x. uset_insert x s) a xs) = set a \<union> set xs"
  by (induction xs arbitrary: a) (auto simp: uset_insert_def)

lemma uset_of_set [simp]: "set (uset_of xs) = set xs"
  using uset_fold [of "[]" xs] by (simp add: uset_of_def)

lemma uset_of_distinct [simp]: "distinct (uset_of xs)"
  using uset_fold [of "[]" xs] by (simp add: uset_of_def)

lemma map_of_umap_modify:
  "map_of (umap_modify k f kvs) k' =
     (if k' = k then Some (f (case map_of kvs k of None \<Rightarrow> [] | Some v \<Rightarrow> v)) else map_of kvs k')"
  by (induction kvs) auto

lemma error_lines: "foldl (\<lambda>error p. error @ bad_path_line p) e ps = e @ concat (map bad_path_line ps)"
  by (induction ps arbitrary: e) auto

lemma bad_path_named:
  assumes "p \<in> set bad"
  shows "sublist ([CHR 0x09] @ ''* '' @ p @ '': does not exist'') (bad_paths_error bad)"
proof -
  from assms obtain xs ys where bad: "bad = xs @ p # ys"
    by (auto dest: split_list)
  define L where "L = [CHR 0x09] @ ''* '' @ p @ '': does not exist''"
  define X where "X = ''bad read files: '' @ [CHR 0x0A] @ concat (map bad_path_line xs)"
  define B where "B = CHR 0x0A # concat (map bad_path_line ys)"
  have "(''bad read files: '' @ [CHR 0x0A]) @ concat (map bad_path_line bad) = X @ L @ B"
    by (simp add: bad bad_path_line_def L_def X_def B_def)
  then have "bad_paths_error bad = butlast (X @ L @ B)"
    by (simp only: bad_paths_error_def error_lines)
  also have "\<dots> = X @ L @ butlast B"
    by (simp add: butlast_append B_def)
  finally show ?thesis
    unfolding sublist_def L_def by blast
qed

lemma open_initial_files_Returns:
  assumes "open_readers_map m = []"
  shows "open_initial_files w m =
           Returns () (foldl (emplace_reader w) m
             (take (unat (min (max_open_files m) (of_nat (length (closed_readers m)))))
                (nth_element w (unat (min (max_open_files m) (of_nat (length (closed_readers m)))))
                   (closed_readers m))))"
proof -
  define k :: "32 word" where "k = min (max_open_files m) (of_nat (length (closed_readers m)))"
  define batch where "batch = take (unat k) (nth_element w (unat k) (closed_readers m))"
  have "unat k \<le> unat (of_nat (length (closed_readers m)) :: 32 word)"
    by (simp add: k_def word_le_nat_alt [symmetric])
  also have "\<dots> \<le> length (closed_readers m)"
    by (simp add: unat_of_nat)
  finally have len: "length batch = unat k"
    by (simp add: batch_def nth_element_def)
  have "k \<le> max_open_files m"
    by (simp add: k_def)
  then have "num_readers_to_close m batch = 0"
    by (simp add: num_readers_to_close_def assms len)
  then have "open_readers w batch m = Returns () (foldl (emplace_reader w) m batch)"
    by (simp add: open_readers_def)
  then show ?thesis
    by (simp add: open_initial_files_def Let_def k_def batch_def)
qed

lemma ReadManager_Throws:
  assumes "\<exists>p \<in> set read_file_paths. \<not> fs_exists w p"
  shows "ReadManager w read_file_paths max_open =
           Throws (Runtime_error (bad_paths_error
                     (filter (\<lambda>p. \<not> fs_exists w p) (uset_of read_file_paths))))
             (new_manager read_file_paths max_open)"
proof -
  from assms have "filter (\<lambda>p. \<not> fs_exists w p) (uset_of read_file_paths) \<noteq> []"
    by (simp add: filter_empty_conv)
  then show ?thesis
    by (simp add: ReadManager_def setup_manager_def get_bad_paths_def new_manager_def)
qed

lemma scanned_pool:
  "open_readers_map (setup_reader_samples_and_regions w m) = open_readers_map m"
  using scan_readers_frame [of w m "closed_readers m"]
  by (simp add: setup_reader_samples_and_regions_def)

lemma ReadManager_Returns:
  assumes "\<forall>p \<in> set read_file_paths. fs_exists w p"
  shows "\<exists>batch. ReadManager w read_file_paths max_open =
           Returns () (foldl (emplace_reader w)
              (setup_reader_samples_and_regions w (new_manager read_file_paths max_open)) batch)"
proof -
  from assms have "filter (\<lambda>p. \<not> fs_exists w p) (uset_of read_file_paths) = []"
    by (simp add: filter_empty_conv)
  moreover have "open_readers_map
      (setup_reader_samples_and_regions w (new_manager read_file_paths max_open)) = []"
    by (simp add: scanned_pool new_manager_def)
  ultimately have "ReadManager w read_file_paths max_open =
      open_initial_files w
        (setup_reader_samples_and_regions w (new_manager read_file_paths max_open))"
    and "\<exists>batch. open_initial_files w
        (setup_reader_samples_and_regions w (new_manager read_file_paths max_open)) =
      Returns () (foldl (emplace_reader w)
        (setup_reader_samples_and_regions w (new_manager read_file_paths max_open)) batch)"
    using open_initial_files_Returns
      [of "setup_reader_samples_and_regions w (new_manager read_file_paths max_open)" w]
    by (simp add: ReadManager_def setup_manager_def get_bad_paths_def new_manager_def, blast)
  then show ?thesis
    by simp
qed

lemma push_contigs:
  "map_of (foldl (\<lambda>cm r. umap_modify (get_contig_name r) (\<lambda>v. v @ [get_contig_region r]) cm)
             cm regions) c =
     (if contig_ranges regions c = [] then map_of cm c
      else Some ((case map_of cm c of None \<Rightarrow> [] | Some v \<Rightarrow> v) @ contig_ranges regions c))"
  by (induction regions arbitrary: cm)
     (auto simp: contig_ranges_def map_of_umap_modify split: option.splits)

lemma map_of_push_region:
  "map_of (push_region p rm r) p' =
     (if p' = p
      then Some (umap_modify (get_contig_name r) (\<lambda>v. v @ [get_contig_region r])
                  (case map_of rm p of None \<Rightarrow> [] | Some cm \<Rightarrow> cm))
      else map_of rm p')"
  by (simp add: push_region_def map_of_umap_modify)

lemma push_regions:
  "map_of (foldl (push_region p) rm regions) p' =
     (if p' = p \<and> regions \<noteq> []
      then Some (foldl (\<lambda>cm r. umap_modify (get_contig_name r) (\<lambda>v. v @ [get_contig_region r]) cm)
                  (case map_of rm p of None \<Rightarrow> [] | Some cm \<Rightarrow> cm) regions)
      else map_of rm p')"
proof (induction regions arbitrary: rm)
  case Nil
  then show ?case by simp
next
  case (Cons r rs)
  show ?case
    by (cases "rs = []") (simp_all add: Cons.IH map_of_push_region)
qed

lemma map_of_sorted_contigs:
  "map_of (map (\<lambda>contig_regions. (fst contig_regions, sort_regions (snd contig_regions))) cm) c
     = map_option sort_regions (map_of cm c)"
  by (induction cm) auto

lemma map_of_sort_contigs:
  "map_of (sort_contigs p rm) p' =
     (if p' = p
      then Some (map (\<lambda>contig_regions. (fst contig_regions, sort_regions (snd contig_regions)))
                   (case map_of rm p of None \<Rightarrow> [] | Some cm \<Rightarrow> cm))
      else map_of rm p')"
  by (simp add: sort_contigs_def map_of_umap_modify)

lemma scan_reader_regions_other:
  "p \<noteq> q \<Longrightarrow>
   map_of (possible_regions_in_readers (scan_reader w m q)) p = map_of (possible_regions_in_readers m) p"
  by (simp add: scan_reader_def add_reader_to_sample_map_def add_possible_regions_to_reader_map_def
      map_of_sort_contigs push_regions)

lemma scan_reader_regions_self:
  assumes "map_of (possible_regions_in_readers m) p = None"
  shows "\<exists>cm. map_of (possible_regions_in_readers (scan_reader w m p)) p = Some cm \<and>
           (\<forall>c. map_of cm c =
              (if contig_ranges (get_possible_regions_in_file w p) c = [] then None
               else Some (sort_regions (contig_ranges (get_possible_regions_in_file w p) c))))"
proof (cases "get_possible_regions_in_file w p = []")
  case True
  with assms show ?thesis
    by (simp add: scan_reader_def add_reader_to_sample_map_def
        add_possible_regions_to_reader_map_def map_of_sort_contigs contig_ranges_def)
next
  case False
  with assms show ?thesis
    by (simp add: scan_reader_def add_reader_to_sample_map_def
        add_possible_regions_to_reader_map_def map_of_sort_contigs push_regions
        map_of_sorted_contigs push_contigs)
qed

lemma scan_readers_regions_other:
  "p \<notin> set ps \<Longrightarrow>
   map_of (possible_regions_in_readers (foldl (scan_reader w) m ps)) p
     = map_of (possible_regions_in_readers m) p"
  by (induction ps arbitrary: m) (auto simp: scan_reader_regions_other)

lemma scan_readers_regions:
  assumes "distinct ps" and "p \<in> set ps" and "map_of (possible_regions_in_readers m) p = None"
  shows "\<exists>cm. map_of (possible_regions_in_readers (foldl (scan_reader w) m ps)) p = Some cm \<and>
           (\<forall>c. map_of cm c =
              (if contig_ranges (get_possible_regions_in_file w p) c = [] then None
               else Some (sort_regions (contig_ranges (get_possible_regions_in_file w p) c))))"
  using assms
proof (induction ps arbitrary: m)
  case Nil
  then show ?case by simp
next
  case (Cons q ps)
  show ?case
  proof (cases "p = q")
    case True
    with Cons.prems have "p \<notin> set ps" by simp
    from scan_readers_regions_other [OF this, of w "scan_reader w m p"]
         scan_reader_regions_self [OF Cons.prems(3), of w] True
    show ?thesis by simp
  next
    case False
    with Cons.prems have "p \<in> set ps" "distinct ps"
      "map_of (possible_regions_in_readers (scan_reader w m q)) p = None"
      by (simp_all add: scan_reader_regions_other)
    from Cons.IH [OF this(2,1,3)] show ?thesis by simp
  qed
qed

lemma push_reader_paths:
  "map_of (foldl (push_reader_path p) idx samples) s =
     (if s \<in> set samples
      then Some ((case map_of idx s of None \<Rightarrow> [] | Some v \<Rightarrow> v) @ replicate (count_list samples s) p)
      else map_of idx s)"
  by (induction samples arbitrary: idx)
     (auto simp: push_reader_path_def map_of_umap_modify replicate_append_same split: option.splits)

lemma scan_reader_samples:
  "(\<exists>sp. map_of (reader_paths_containing_sample m) s = Some sp \<and> p \<in> set sp) \<or>
   (p = q \<and> s \<in> set (get_samples_in_file w q)) \<Longrightarrow>
   \<exists>sp. map_of (reader_paths_containing_sample (scan_reader w m q)) s = Some sp \<and> p \<in> set sp"
  by (auto simp: scan_reader_def add_reader_to_sample_map_def
      add_possible_regions_to_reader_map_def push_reader_paths count_list_0_iff)

lemma scan_readers_samples:
  "(\<exists>sp. map_of (reader_paths_containing_sample m) s = Some sp \<and> p \<in> set sp) \<or>
   (p \<in> set ps \<and> s \<in> set (get_samples_in_file w p)) \<Longrightarrow>
   \<exists>sp. map_of (reader_paths_containing_sample (foldl (scan_reader w) m ps)) s = Some sp \<and> p \<in> set sp"
proof (induction ps arbitrary: m)
  case Nil
  then show ?case by simp
next
  case (Cons q ps)
  have "(\<exists>sp. map_of (reader_paths_containing_sample (scan_reader w m q)) s = Some sp \<and> p \<in> set sp) \<or>
        (p \<in> set ps \<and> s \<in> set (get_samples_in_file w p))"
    using Cons.prems scan_reader_samples [of m s p q w] by auto
  from Cons.IH [OF this] show ?case by simp
qed

lemma ReadManager_Returns_shape:
  assumes "ReadManager w read_file_paths max_open = Returns u m"
  shows "\<exists>batch. m = foldl (emplace_reader w)
              (setup_reader_samples_and_regions w (new_manager read_file_paths max_open)) batch"
proof (cases "\<forall>p \<in> set read_file_paths. fs_exists w p")
  case True
  from ReadManager_Returns [OF this, of max_open] assms show ?thesis
    by auto
next
  case False
  then have "\<exists>p \<in> set read_file_paths. \<not> fs_exists w p" by simp
  from ReadManager_Throws [OF this, of max_open] assms show ?thesis
    by simp
qed

lemma constructed_indexes:
  assumes "ReadManager w read_file_paths max_open = Returns u m"
  shows "possible_regions_in_readers m =
           possible_regions_in_readers (foldl (scan_reader w) (new_manager read_file_paths max_open)
             (uset_of read_file_paths)) \<and>
         reader_paths_containing_sample m =
           reader_paths_containing_sample (foldl (scan_reader w) (new_manager read_file_paths max_open)
             (uset_of read_file_paths))"
proof -
  from ReadManager_Returns_shape [OF assms] obtain batch
    where "m = foldl (emplace_reader w)
              (setup_reader_samples_and_regions w (new_manager read_file_paths max_open)) batch"
    by blast
  then show ?thesis
    using emplace_readers_frame
      [of w "setup_reader_samples_and_regions w (new_manager read_file_paths max_open)" batch]
    by (simp add: setup_reader_samples_and_regions_def new_manager_def)
qed

text \<open>
  C4. If some path of the source list does not exist, construction throws a runtime error
  whose message has one line for every distinct path that does not exist (each such path
  is named, not only the first), and the manager at the throw is the freshly initialised
  one: no entry of the sample index or the region index has been built and nothing is
  open. If every path exists, construction returns, and the indexes are built: every
  source has a region-index entry and is listed under every sample its header names.
\<close>

theorem construction_checks_paths_first:
  "((\<exists>p \<in> set read_file_paths. \<not> fs_exists w p) \<longrightarrow>
      (\<exists>bad. distinct bad \<and> set bad = {p \<in> set read_file_paths. \<not> fs_exists w p} \<and>
         ReadManager w read_file_paths max_open =
           Throws (Runtime_error (bad_paths_error bad)) (new_manager read_file_paths max_open) \<and>
         (\<forall>p \<in> set read_file_paths. \<not> fs_exists w p \<longrightarrow>
            sublist ([CHR 0x09] @ ''* '' @ p @ '': does not exist'') (bad_paths_error bad)))) \<and>
   reader_paths_containing_sample (new_manager read_file_paths max_open) = [] \<and>
   possible_regions_in_readers (new_manager read_file_paths max_open) = [] \<and>
   open_readers_map (new_manager read_file_paths max_open) = [] \<and>
   ((\<forall>p \<in> set read_file_paths. fs_exists w p) \<longrightarrow>
      (\<exists>m. ReadManager w read_file_paths max_open = Returns () m \<and>
         (\<forall>p \<in> set read_file_paths.
            map_of (possible_regions_in_readers m) p \<noteq> None \<and>
            (\<forall>s \<in> set (get_samples_in_file w p).
               \<exists>sp. map_of (reader_paths_containing_sample m) s = Some sp \<and> p \<in> set sp))))"
proof (intro conjI impI)
  assume bad: "\<exists>p \<in> set read_file_paths. \<not> fs_exists w p"
  let ?bad = "filter (\<lambda>p. \<not> fs_exists w p) (uset_of read_file_paths)"
  have "distinct ?bad" and "set ?bad = {p \<in> set read_file_paths. \<not> fs_exists w p}"
    by auto
  moreover have "\<forall>p \<in> set read_file_paths. \<not> fs_exists w p \<longrightarrow>
            sublist ([CHR 0x09] @ ''* '' @ p @ '': does not exist'') (bad_paths_error ?bad)"
    by (intro ballI impI bad_path_named) simp
  ultimately show "\<exists>bad. distinct bad \<and> set bad = {p \<in> set read_file_paths. \<not> fs_exists w p} \<and>
         ReadManager w read_file_paths max_open =
           Throws (Runtime_error (bad_paths_error bad)) (new_manager read_file_paths max_open) \<and>
         (\<forall>p \<in> set read_file_paths. \<not> fs_exists w p \<longrightarrow>
            sublist ([CHR 0x09] @ ''* '' @ p @ '': does not exist'') (bad_paths_error bad))"
    using ReadManager_Throws [OF bad, of max_open] by blast
next
  assume ok: "\<forall>p \<in> set read_file_paths. fs_exists w p"
  from ReadManager_Returns [OF ok, of max_open] obtain m
    where m: "ReadManager w read_file_paths max_open = Returns () m"
    by blast
  note idx = constructed_indexes [OF m]
  have "map_of (possible_regions_in_readers m) p \<noteq> None \<and>
        (\<forall>s \<in> set (get_samples_in_file w p).
           \<exists>sp. map_of (reader_paths_containing_sample m) s = Some sp \<and> p \<in> set sp)"
    if p: "p \<in> set read_file_paths" for p
  proof -
    have "map_of (possible_regions_in_readers (new_manager read_file_paths max_open)) p = None"
      by (simp add: new_manager_def)
    from scan_readers_regions [OF uset_of_distinct _ this, of read_file_paths w] p
    have "map_of (possible_regions_in_readers m) p \<noteq> None"
      by (auto simp: idx)
    moreover have "\<exists>sp. map_of (reader_paths_containing_sample m) s = Some sp \<and> p \<in> set sp"
      if "s \<in> set (get_samples_in_file w p)" for s
      using scan_readers_samples
        [of "new_manager read_file_paths max_open" s p "uset_of read_file_paths" w] p that
      by (simp add: idx)
    ultimately show ?thesis by blast
  qed
  with m show "\<exists>m. ReadManager w read_file_paths max_open = Returns () m \<and>
         (\<forall>p \<in> set read_file_paths.
            map_of (possible_regions_in_readers m) p \<noteq> None \<and>
            (\<forall>s \<in> set (get_samples_in_file w p).
               \<exists>sp. map_of (reader_paths_containing_sample m) s = Some sp \<and> p \<in> set sp))"
    by blast
qed (simp_all add: new_manager_def)

theorem construction_checks_paths_first_witness:
  "\<not> fs_exists lab ''x.bam'' \<and> \<not> fs_exists lab ''y.bam'' \<and>
   ReadManager lab [''a.bam'', ''x.bam'', ''c.bam'', ''y.bam''] 3 =
     Throws (Runtime_error (''bad read files: '' @ [CHR 0x0A] @
                            [CHR 0x09] @ ''* x.bam: does not exist'' @ [CHR 0x0A] @
                            [CHR 0x09] @ ''* y.bam: does not exist''))
       (new_manager [''a.bam'', ''x.bam'', ''c.bam'', ''y.bam''] 3) \<and>
   sublist ([CHR 0x09] @ ''* '' @ ''x.bam'' @ '': does not exist'')
     (''bad read files: '' @ [CHR 0x0A] @
      [CHR 0x09] @ ''* x.bam: does not exist'' @ [CHR 0x0A] @
      [CHR 0x09] @ ''* y.bam: does not exist'') \<and>
   sublist ([CHR 0x09] @ ''* '' @ ''y.bam'' @ '': does not exist'')
     (''bad read files: '' @ [CHR 0x0A] @
      [CHR 0x09] @ ''* x.bam: does not exist'' @ [CHR 0x0A] @
      [CHR 0x09] @ ''* y.bam: does not exist'') \<and>
   list_all (fs_exists lab) lab_paths \<and>
   ReadManager lab lab_paths 2 = Returns () lab2 \<and>
   map_of (possible_regions_in_readers lab2) ''c.bam'' \<noteq> None \<and>
   map_of (reader_paths_containing_sample lab2) ''S2'' = Some [''b.bam'', ''c.bam'']"
proof -
  let ?ps = "[''a.bam'', ''x.bam'', ''c.bam'', ''y.bam'']"
  let ?msg = "''bad read files: '' @ [CHR 0x0A] @
      [CHR 0x09] @ ''* x.bam: does not exist'' @ [CHR 0x0A] @
      [CHR 0x09] @ ''* y.bam: does not exist''"
  have x: "\<not> fs_exists lab ''x.bam''" and y: "\<not> fs_exists lab ''y.bam''"
    by (simp_all add: lab_def)
  have t: "ReadManager lab ?ps 3 = Throws (Runtime_error ?msg) (new_manager ?ps 3)"
    by code_simp
  have "\<exists>p \<in> set ?ps. \<not> fs_exists lab p"
    using x by simp
  with construction_checks_paths_first [of ?ps lab 3] obtain bad
    where "ReadManager lab ?ps 3 = Throws (Runtime_error (bad_paths_error bad)) (new_manager ?ps 3)"
      and named: "\<forall>p \<in> set ?ps. \<not> fs_exists lab p \<longrightarrow>
            sublist ([CHR 0x09] @ ''* '' @ p @ '': does not exist'') (bad_paths_error bad)"
    by blast
  with t have msg: "bad_paths_error bad = ?msg"
    by simp
  from named x y have sx: "sublist ([CHR 0x09] @ ''* '' @ ''x.bam'' @ '': does not exist'') ?msg"
    and sy: "sublist ([CHR 0x09] @ ''* '' @ ''y.bam'' @ '': does not exist'') ?msg"
    unfolding msg by simp_all
  have ok: "\<forall>p \<in> set lab_paths. fs_exists lab p"
    by (simp add: lab_paths_def lab_def)
  have c: "ReadManager lab lab_paths 2 = Returns () lab2"
    by code_simp
  from construction_checks_paths_first [of lab_paths lab 2] ok c
  have "\<forall>p \<in> set lab_paths.
            map_of (possible_regions_in_readers lab2) p \<noteq> None \<and>
            (\<forall>s \<in> set (get_samples_in_file lab p).
               \<exists>sp. map_of (reader_paths_containing_sample lab2) s = Some sp \<and> p \<in> set sp)"
    by auto
  then have r: "map_of (possible_regions_in_readers lab2) ''c.bam'' \<noteq> None"
    by (simp add: lab_paths_def)
  have i: "map_of (reader_paths_containing_sample lab2) ''S2'' = Some [''b.bam'', ''c.bam'']"
    by (simp add: lab2_def lab_index_def)
  from x y t sx sy ok c r i show ?thesis
    by (simp add: list_all_iff)
qed

text \<open>
  C8 as stated fails: the code sorts the sub-ranges of each contig but has no step that
  removes duplicates. A header scan that yields \<open>[0, 100)\<close> of chr1 twice leaves it
  twice in the index.
\<close>

theorem region_index_keeps_duplicates:
  "ReadManager dup_world [''x.bam''] 1 = Returns () dup_manager \<and>
   map_of (possible_regions_in_readers dup_manager) ''x.bam''
     = Some [(''chr1'', [(0, 100), (0, 100), (200, 300)]), (''chr2'', [(5, 50)])] \<and>
   map_of [(''chr1'', [(0 :: nat, 100 :: nat), (0, 100), (200, 300)]), (''chr2'', [(5, 50)])] ''chr1''
     = Some [(0, 100), (0, 100), (200, 300)] \<and>
   \<not> distinct [(0 :: nat, 100 :: nat), (0, 100), (200, 300)]"
  by code_simp

text \<open>
  C8, amended. After construction, for every source and every contig with an entry in the
  region index, the sequence of sub-ranges is sorted ascending by start coordinate and
  holds exactly the sub-ranges the header scan of that source yields for that contig,
  each as many times as the scan yields it: duplicates are kept, not removed.
\<close>

theorem region_index_sorted:
  assumes "ReadManager w read_file_paths max_open = Returns u m"
      and "map_of (possible_regions_in_readers m) p = Some contigs"
      and "map_of contigs c = Some rs"
  shows "sorted (map fst rs) \<and>
         mset rs = mset (contig_ranges (get_possible_regions_in_file w p) c)"
proof -
  note idx = constructed_indexes [OF assms(1)]
  have empty: "map_of (possible_regions_in_readers (new_manager read_file_paths max_open)) p = None"
    by (simp add: new_manager_def)
  have "p \<in> set (uset_of read_file_paths)"
  proof (rule ccontr)
    assume "p \<notin> set (uset_of read_file_paths)"
    from scan_readers_regions_other [OF this, of w "new_manager read_file_paths max_open"]
    show False
      using assms(2) empty by (simp add: idx)
  qed
  from scan_readers_regions [OF uset_of_distinct this empty, of w] assms(2,3)
  have "rs = sort_regions (contig_ranges (get_possible_regions_in_file w p) c)"
    by (auto simp: idx split: if_splits)
  then show ?thesis
    by (simp add: sort_regions_def)
qed

theorem region_index_sorted_witness:
  "ReadManager dup_world [''x.bam''] 1 = Returns () dup_manager \<and>
   map_of (possible_regions_in_readers dup_manager) ''x.bam''
     = Some [(''chr1'', [(0, 100), (0, 100), (200, 300)]), (''chr2'', [(5, 50)])] \<and>
   map_of [(''chr1'', [(0 :: nat, 100 :: nat), (0, 100), (200, 300)]), (''chr2'', [(5, 50)])] ''chr1''
     = Some [(0, 100), (0, 100), (200, 300)] \<and>
   sorted (map fst [(0 :: nat, 100 :: nat), (0, 100), (200, 300)]) \<and>
   mset [(0 :: nat, 100 :: nat), (0, 100), (200, 300)]
     = mset (contig_ranges (get_possible_regions_in_file dup_world ''x.bam'') ''chr1'')"
proof -
  have c: "ReadManager dup_world [''x.bam''] 1 = Returns () dup_manager"
    by code_simp
  have p: "map_of (possible_regions_in_readers dup_manager) ''x.bam''
     = Some [(''chr1'', [(0, 100), (0, 100), (200, 300)]), (''chr2'', [(5, 50)])]"
    by (simp add: dup_manager_def)
  have r: "map_of [(''chr1'', [(0, 100), (0, 100), (200, 300)]), (''chr2'', [(5 :: nat, 50 :: nat)])] ''chr1''
     = Some [(0, 100), (0, 100), (200, 300)]"
    by simp
  from region_index_sorted [OF c p r] c p r show ?thesis
    by simp
qed

subsection \<open>The sample index across fetches\<close>

lemma open_readers_frame:
  assumes "final_state (open_readers w paths m) = Some m'"
  shows "reader_paths_containing_sample m' = reader_paths_containing_sample m \<and>
         possible_regions_in_readers m' = possible_regions_in_readers m \<and>
         max_open_files m' = max_open_files m"
proof -
  from assms obtain u mc
    where mc: "close_readers w (unat (num_readers_to_close m paths)) m = Returns u mc"
      and m': "m' = foldl (emplace_reader w) mc paths"
    by (auto simp: open_readers_def close_readers_no_throw split: outcome.splits)
  from close_readers_Returns [OF mc] emplace_readers_frame [of w mc paths] show ?thesis
    by (simp add: m')
qed

lemma mset_partitioned:
  "mset (filter P (filter Q xs) @ filter (Not \<circ> P) (filter Q xs) @ filter (Not \<circ> Q) xs) = mset xs"
proof -
  have "mset (filter P (filter Q xs)) + mset (filter (Not \<circ> P) (filter Q xs)) = mset (filter Q xs)"
    by (simp add: comp_def del: filter_filter)
  moreover have "mset (filter Q xs) + mset (filter (Not \<circ> Q) xs) = mset xs"
    by (simp add: comp_def)
  ultimately show ?thesis
    by (simp add: add.assoc [symmetric] del: filter_filter)
qed

text \<open>
  C7 as stated fails: the single-sample fetch binds a reference to the vector stored in
  the sample index and partitions it in place, so the sequence of paths of that sample
  can differ after the call. Here sample S2 is listed as b.bam, c.bam; b.bam does not
  cover \<open>chr1 0 50\<close> and c.bam does, so the partition by the region filter has to put
  c.bam first: after the fetch the list is c.bam, b.bam.
\<close>

theorem fetch_reorders_sample_index:
  "fetch_reads lab ''S2'' (chr1 0 50) lab2 = Returns [5] lab2_reordered \<and>
   \<not> could_reader_contain_region lab2 ''b.bam'' (chr1 0 50) \<and>
   could_reader_contain_region lab2 ''c.bam'' (chr1 0 50) \<and>
   map_of (reader_paths_containing_sample lab2) ''S2'' = Some [''b.bam'', ''c.bam''] \<and>
   map_of (reader_paths_containing_sample lab2_reordered) ''S2'' = Some [''c.bam'', ''b.bam''] \<and>
   [''c.bam'', ''b.bam''] \<noteq> [''b.bam'', ''c.bam'']"
  by code_simp

text \<open>
  C7, amended. Across any fetch the sample index keeps its samples (the keys, in the same
  order) and, for every sample, the same paths with the same multiplicities. Only the
  single-sample fetch can change anything at all, and only the order of the paths listed
  under the sample it is called for; the lists of all other samples are identical before
  and after, and the multi-sample and all-sample fetches leave the whole index identical.
\<close>

theorem fetch_keeps_sample_index_contents:
  "(final_state (fetch_reads w sample region m) = Some m' \<longrightarrow>
      map fst (reader_paths_containing_sample m') = map fst (reader_paths_containing_sample m) \<and>
      (\<forall>s. s \<noteq> sample \<longrightarrow>
         map_of (reader_paths_containing_sample m') s = map_of (reader_paths_containing_sample m) s) \<and>
      map_option mset (map_of (reader_paths_containing_sample m') sample)
        = map_option mset (map_of (reader_paths_containing_sample m) sample)) \<and>
   (final_state (fetch_reads_samples w samples region m) = Some m' \<longrightarrow>
      reader_paths_containing_sample m' = reader_paths_containing_sample m) \<and>
   (final_state (fetch_reads_all w region m) = Some m' \<longrightarrow>
      reader_paths_containing_sample m' = reader_paths_containing_sample m)"
proof (intro conjI impI)
  assume fs: "final_state (fetch_reads_samples w samples region m) = Some m'"
  from fetch_reads_samples_shape [OF fs] open_readers_frame
  show "reader_paths_containing_sample m' = reader_paths_containing_sample m"
    by blast
next
  assume "final_state (fetch_reads_all w region m) = Some m'"
  then have "final_state (fetch_reads_samples w
       (map fst (reader_paths_containing_sample m)) region m) = Some m'"
    by (simp add: fetch_reads_all_def)
  from fetch_reads_samples_shape [OF this] open_readers_frame
  show "reader_paths_containing_sample m' = reader_paths_containing_sample m"
    by blast
next
  assume fs: "final_state (fetch_reads w sample region m) = Some m'"
  let ?C = "\<lambda>reader_paths. filter (\<lambda>p. could_reader_contain_region m p region) reader_paths"
  let ?new = "\<lambda>reader_paths. filter (is_open w m) (?C reader_paths) @
       filter (Not \<circ> is_open w m) (?C reader_paths) @
       filter (Not \<circ> (\<lambda>p. could_reader_contain_region m p region)) reader_paths"
  from fetch_reads_shape [OF fs] open_readers_frame
  consider (unknown) "m' = m"
    | (known) reader_paths where
        "map_of (reader_paths_containing_sample m) sample = Some reader_paths"
        "reader_paths_containing_sample m' =
           assign_reader_paths sample (?new reader_paths) (reader_paths_containing_sample m)"
    by fastforce
  then have "map fst (reader_paths_containing_sample m') = map fst (reader_paths_containing_sample m) \<and>
      (\<forall>s. s \<noteq> sample \<longrightarrow>
         map_of (reader_paths_containing_sample m') s = map_of (reader_paths_containing_sample m) s) \<and>
      map_option mset (map_of (reader_paths_containing_sample m') sample)
        = map_option mset (map_of (reader_paths_containing_sample m) sample)"
  proof cases
    case unknown
    then show ?thesis by simp
  next
    case (known reader_paths)
    have "mset (?new reader_paths) = mset reader_paths"
      by (rule mset_partitioned)
    with known show ?thesis
      by (simp add: keys_assign_reader_paths map_of_assign_reader_paths)
  qed
  then show "map fst (reader_paths_containing_sample m') = map fst (reader_paths_containing_sample m)"
    and "\<forall>s. s \<noteq> sample \<longrightarrow>
         map_of (reader_paths_containing_sample m') s = map_of (reader_paths_containing_sample m) s"
    and "map_option mset (map_of (reader_paths_containing_sample m') sample)
        = map_option mset (map_of (reader_paths_containing_sample m) sample)"
    by simp_all
qed

theorem fetch_keeps_sample_index_contents_witness:
  "final_state (fetch_reads lab ''S2'' (chr1 0 50) lab2) = Some lab2_reordered \<and>
   final_state (fetch_reads_samples lab [''S2''] (chr1 250 260) lab2) = Some lab2_fetched_S2 \<and>
   final_state (fetch_reads_all lab (chr1 0 50) lab2) = Some lab2_fetched \<and>
   map fst (reader_paths_containing_sample lab2_reordered) = [''S1'', ''S2''] \<and>
   map fst (reader_paths_containing_sample lab2) = [''S1'', ''S2''] \<and>
   map_of (reader_paths_containing_sample lab2_reordered) ''S1''
     = map_of (reader_paths_containing_sample lab2) ''S1'' \<and>
   map_option mset (map_of (reader_paths_containing_sample lab2_reordered) ''S2'')
     = Some (mset [''b.bam'', ''c.bam'']) \<and>
   reader_paths_containing_sample lab2_fetched_S2 = reader_paths_containing_sample lab2 \<and>
   reader_paths_containing_sample lab2_fetched = reader_paths_containing_sample lab2"
proof -
  have f1: "final_state (fetch_reads lab ''S2'' (chr1 0 50) lab2) = Some lab2_reordered"
    by code_simp
  have f2: "final_state (fetch_reads_samples lab [''S2''] (chr1 250 260) lab2) = Some lab2_fetched_S2"
    by code_simp
  have f3: "final_state (fetch_reads_all lab (chr1 0 50) lab2) = Some lab2_fetched"
    by code_simp
  have keys: "map fst (reader_paths_containing_sample lab2) = [''S1'', ''S2'']"
    by (simp add: lab2_def lab_index_def)
  have s2: "map_of (reader_paths_containing_sample lab2) ''S2'' = Some [''b.bam'', ''c.bam'']"
    by (simp add: lab2_def lab_index_def)
  from fetch_keeps_sample_index_contents
    [of lab "''S2''" "chr1 0 50" lab2 lab2_reordered "[''S2'']"] f1
  have A: "map fst (reader_paths_containing_sample lab2_reordered)
             = map fst (reader_paths_containing_sample lab2) \<and>
      (\<forall>s. s \<noteq> ''S2'' \<longrightarrow>
         map_of (reader_paths_containing_sample lab2_reordered) s
           = map_of (reader_paths_containing_sample lab2) s) \<and>
      map_option mset (map_of (reader_paths_containing_sample lab2_reordered) ''S2'')
        = map_option mset (map_of (reader_paths_containing_sample lab2) ''S2'')"
    by blast
  from A have 1: "map fst (reader_paths_containing_sample lab2_reordered) = [''S1'', ''S2'']"
    and 2: "map_of (reader_paths_containing_sample lab2_reordered) ''S1''
              = map_of (reader_paths_containing_sample lab2) ''S1''"
    by (simp_all add: keys)
  from A [unfolded s2 option.map]
  have 3: "map_option mset (map_of (reader_paths_containing_sample lab2_reordered) ''S2'')
              = Some (mset [''b.bam'', ''c.bam''])"
    by blast
  from fetch_keeps_sample_index_contents
    [of lab "''S1''" "chr1 250 260" lab2 lab2_fetched_S2 "[''S2'']"] f2
  have 4: "reader_paths_containing_sample lab2_fetched_S2 = reader_paths_containing_sample lab2"
    by simp
  from fetch_keeps_sample_index_contents
    [of lab "''S1''" "chr1 0 50" lab2 lab2_fetched "[''S2'']"] f3
  have 5: "reader_paths_containing_sample lab2_fetched = reader_paths_containing_sample lab2"
    by simp
  from f1 f2 f3 keys 1 2 3 4 5 show ?thesis
    by blast
qed

subsection \<open>Repeated queries\<close>

lemma map_find_sorted:
  "sorted_wrt (file_size_compare w) xs \<Longrightarrow>
   map_find w k xs = find (\<lambda>x. fs_file_size w x = fs_file_size w k) xs"
proof (induction xs)
  case Nil
  then show ?case by simp
next
  case (Cons x xs)
  have "find (\<lambda>y. fs_file_size w y = fs_file_size w k) xs = None" if "file_size_compare w k x"
    using that Cons.prems by (fastforce simp: find_None_iff file_size_compare_def)
  with Cons show ?case
    by (auto simp: file_size_compare_def)
qed

lemma sorted_same_size:
  "sorted_wrt (file_size_compare w) xs \<Longrightarrow> x \<in> set xs \<Longrightarrow> y \<in> set xs \<Longrightarrow>
   fs_file_size w x = fs_file_size w y \<Longrightarrow> x = y"
  by (induction xs) (auto simp: file_size_compare_def)

lemma map_find_Some:
  "sorted_wrt (file_size_compare w) xs \<Longrightarrow>
   (map_find w k xs = Some x) = (x \<in> set xs \<and> fs_file_size w x = fs_file_size w k)"
proof -
  assume s: "sorted_wrt (file_size_compare w) xs"
  show ?thesis
  proof
    assume "map_find w k xs = Some x"
    then show "x \<in> set xs \<and> fs_file_size w x = fs_file_size w k"
      by (auto simp: map_find_sorted [OF s] find_Some_iff)
  next
    assume x: "x \<in> set xs \<and> fs_file_size w x = fs_file_size w k"
    then obtain y where y: "map_find w k xs = Some y"
      by (cases "map_find w k xs") (auto simp: map_find_sorted [OF s] find_None_iff)
    then have "y \<in> set xs \<and> fs_file_size w y = fs_file_size w k"
      by (auto simp: map_find_sorted [OF s] find_Some_iff)
    with x s have "y = x"
      by (auto intro: sorted_same_size)
    with y show "map_find w k xs = Some x" by simp
  qed
qed

lemma map_find_None:
  "sorted_wrt (file_size_compare w) xs \<Longrightarrow>
   (map_find w k xs = None) = (\<forall>x \<in> set xs. fs_file_size w x \<noteq> fs_file_size w k)"
  by (auto simp: map_find_sorted find_None_iff)

text \<open>A reader that is found before and after a batch opening is the same reader.\<close>

lemma map_find_stable:
  assumes sorted: "pool_sorted w m"
      and opened: "final_state (open_readers w paths m) = Some m'"
      and fresh: "\<forall>p \<in> set paths. map_find w p (open_readers_map m) = None"
      and before: "map_find w k (open_readers_map m) = Some q"
      and after: "map_find w k (open_readers_map m') \<noteq> None"
  shows "map_find w k (open_readers_map m') = Some q"
proof -
  have s: "sorted_wrt (file_size_compare w) (open_readers_map m)"
    using sorted by (simp add: pool_sorted_def)
  have s': "sorted_wrt (file_size_compare w) (open_readers_map m')"
    using open_readers_sorted [OF sorted opened] by (simp add: pool_sorted_def)
  from after obtain q' where q': "map_find w k (open_readers_map m') = Some q'"
    by auto
  then have in': "q' \<in> set (open_readers_map m')" and size': "fs_file_size w q' = fs_file_size w k"
    by (simp_all add: map_find_Some [OF s'])
  from before have inq: "q \<in> set (open_readers_map m)" and sizeq: "fs_file_size w q = fs_file_size w k"
    by (simp_all add: map_find_Some [OF s])
  have "q' \<notin> set paths"
  proof
    assume "q' \<in> set paths"
    with fresh have "map_find w q' (open_readers_map m) = None" by blast
    with inq sizeq size' show False
      by (simp add: map_find_None [OF s])
  qed
  with in' open_readers_pool [OF opened] have "q' \<in> set (open_readers_map m)"
    by blast
  with inq sizeq size' have "q' = q"
    by (auto intro: sorted_same_size [OF s])
  with q' show ?thesis by simp
qed

lemma fetch_each_append:
  "fetch_each w pool region sample (xs @ ys) acc =
     (case fetch_each w pool region sample xs acc of
        None \<Rightarrow> None
      | Some acc' \<Rightarrow> fetch_each w pool region sample ys acc')"
  by (induction xs arbitrary: acc) (auto split: option.splits)

lemma fetch_each_cong:
  "\<forall>p \<in> set xs. map_find w p pool' = map_find w p pool \<Longrightarrow>
   fetch_each w pool' region sample xs acc = fetch_each w pool region sample xs acc"
  by (induction xs arbitrary: acc) (auto split: option.splits)

lemma could_contain_regions:
  "possible_regions_in_readers m' = possible_regions_in_readers m \<Longrightarrow>
   could_reader_contain_region m' p region = could_reader_contain_region m p region"
  by (simp add: could_reader_contain_region_def)

lemma assign_reader_paths_same:
  "assign_reader_paths s v (assign_reader_paths s v idx) = assign_reader_paths s v idx"
  by (induction idx) auto

lemma open_readers_nothing: "open_readers w [] m = Returns () m"
  by (simp add: open_readers_def num_readers_to_close_def)

lemma fetch_each_found:
  "fetch_each w pool region sample xs acc = Some res \<Longrightarrow> p \<in> set xs \<Longrightarrow>
   map_find w p pool \<noteq> None"
  by (induction xs arbitrary: acc) (auto split: option.splits)

lemma fetch_reads_repeat:
  assumes sorted: "pool_sorted w m"
      and rp: "map_of (reader_paths_containing_sample m) sample = Some reader_paths"
      and first: "fetch_reads w sample region m = Returns reads m'"
      and still: "\<forall>p \<in> set reader_paths. could_reader_contain_region m p region \<longrightarrow> is_open w m' p"
  shows "fetch_reads w sample region m' = Returns reads m'"
proof -
  define Cand where "Cand = filter (\<lambda>p. could_reader_contain_region m p region) reader_paths"
  define Rest where "Rest = filter (Not \<circ> (\<lambda>p. could_reader_contain_region m p region)) reader_paths"
  define Opn where "Opn = filter (is_open w m) Cand"
  define New where "New = filter (Not \<circ> is_open w m) Cand"
  define m1 where "m1 = m\<lparr>reader_paths_containing_sample :=
       assign_reader_paths sample (Opn @ New @ Rest) (reader_paths_containing_sample m)\<rparr>"
  from first obtain r1 u
    where f1: "fetch_each w (open_readers_map m) region sample Opn [] = Some r1"
      and opened: "open_readers w New m1 = Returns u m'"
      and f2: "fetch_each w (open_readers_map m') region sample New r1 = Some reads"
    by (auto simp: fetch_reads_def Let_def rp Cand_def Rest_def Opn_def New_def m1_def
        split: option.splits outcome.splits)
  from opened have fin: "final_state (open_readers w New m1) = Some m'"
    by simp
  note frame = open_readers_frame [OF fin]
  have idx': "reader_paths_containing_sample m' =
       assign_reader_paths sample (Opn @ New @ Rest) (reader_paths_containing_sample m)"
    using frame by (simp add: m1_def)
  have regions': "possible_regions_in_readers m' = possible_regions_in_readers m"
    using frame by (simp add: m1_def)
  have could': "could_reader_contain_region m' p region = could_reader_contain_region m p region" for p
    using regions' by (rule could_contain_regions)
  have rp': "map_of (reader_paths_containing_sample m') sample = Some (Opn @ New @ Rest)"
    by (simp add: idx' map_of_assign_reader_paths [OF rp])
  have Cand_could: "\<forall>p \<in> set (Opn @ New). could_reader_contain_region m p region"
    by (auto simp: Opn_def New_def Cand_def)
  have Rest_not: "\<forall>p \<in> set Rest. \<not> could_reader_contain_region m p region"
    by (auto simp: Rest_def)
  have Cand_open: "\<forall>p \<in> set (Opn @ New). is_open w m' p"
    using still by (auto simp: Opn_def New_def Cand_def)
  have p1: "filter (\<lambda>p. could_reader_contain_region m' p region) (Opn @ New @ Rest) = Opn @ New"
    using Cand_could Rest_not by (simp add: could' filter_id_conv filter_empty_conv)
  have p2: "filter (Not \<circ> (\<lambda>p. could_reader_contain_region m' p region)) (Opn @ New @ Rest) = Rest"
    using Cand_could Rest_not by (simp add: could' filter_id_conv filter_empty_conv)
  have p3: "filter (is_open w m') (Opn @ New) = Opn @ New"
    using Cand_open by (simp add: filter_id_conv)
  have p4: "filter (Not \<circ> is_open w m') (Opn @ New) = []"
    using Cand_open by (simp add: filter_empty_conv)
  have same: "m'\<lparr>reader_paths_containing_sample :=
       assign_reader_paths sample (Opn @ New @ Rest) (reader_paths_containing_sample m')\<rparr> = m'"
    by (simp add: idx' assign_reader_paths_same)
  have s1: "pool_sorted w m1"
    using sorted by (simp add: pool_sorted_def m1_def)
  have fresh: "\<forall>p \<in> set New. map_find w p (open_readers_map m1) = None"
    by (simp add: New_def is_open_def m1_def)
  have "map_find w p (open_readers_map m') = map_find w p (open_readers_map m)" if "p \<in> set Opn" for p
  proof -
    from that obtain q where q: "map_find w p (open_readers_map m1) = Some q"
      by (auto simp: Opn_def is_open_def m1_def)
    from that Cand_open have "map_find w p (open_readers_map m') \<noteq> None"
      by (simp add: is_open_def)
    from map_find_stable [OF s1 fin fresh q this] q show ?thesis
      by (simp add: m1_def)
  qed
  then have "fetch_each w (open_readers_map m') region sample Opn [] = Some r1"
    using fetch_each_cong [of Opn w "open_readers_map m'" "open_readers_map m" region sample "[]"] f1
    by simp
  with f2 have all: "fetch_each w (open_readers_map m') region sample (Opn @ New) [] = Some reads"
    by (simp add: fetch_each_append)
  show ?thesis
    by (simp only: fetch_reads_def rp' option.case partition_filter_conv Let_def split_conv
        p1 p2 p3 p4 append_Nil append_assoc same all open_readers_nothing outcome.case
        fetch_each.simps)
qed

lemma reads_of_sample_absent:
  "s \<notin> fst ` set reads \<Longrightarrow> reads_of_sample reads s = []"
  by (induction reads) (auto simp: reads_of_sample_def)

lemma map_of_merge_reads:
  "map_of (merge_reads acc reads) s =
     (if s \<in> fst ` set reads
      then Some ((case map_of acc s of None \<Rightarrow> [] | Some v \<Rightarrow> v) @ reads_of_sample reads s)
      else map_of acc s)"
proof (induction reads arbitrary: acc)
  case Nil
  then show ?case by (simp add: merge_reads_def)
next
  case (Cons kv reads)
  have step: "merge_reads acc (kv # reads)
                = merge_reads (umap_modify (fst kv) (\<lambda>v. v @ snd kv) acc) reads"
    by (simp add: merge_reads_def)
  have absent: "fst kv \<notin> fst ` set reads \<Longrightarrow> reads_of_sample reads (fst kv) = []"
    by (rule reads_of_sample_absent)
  have cons: "reads_of_sample (kv # reads) s
                = (if fst kv = s then snd kv @ reads_of_sample reads s else reads_of_sample reads s)"
    by (simp add: reads_of_sample_def)
  show ?case
    unfolding step Cons.IH cons
    using absent by (cases "fst kv = s") (auto simp: map_of_umap_modify split: option.splits)
qed

lemma mset_concat_perm:
  "mset xs = mset ys \<Longrightarrow> mset (concat (map f xs)) = mset (concat (map f ys))"
proof -
  assume eq: "mset xs = mset ys"
  have "mset (concat (map f zs)) = sum_mset (image_mset (\<lambda>z. mset (f z)) (mset zs))" for zs
    by (induction zs) auto
  with eq show ?thesis by simp
qed

lemma fetch_each_map_append:
  "fetch_each_map w pool region (xs @ ys) acc =
     (case fetch_each_map w pool region xs acc of
        None \<Rightarrow> None
      | Some acc' \<Rightarrow> fetch_each_map w pool region ys acc')"
  by (induction xs arbitrary: acc) (auto split: option.splits)

lemma fetch_each_map_cong:
  "\<forall>p \<in> set xs. map_find w p pool' = map_find w p pool \<Longrightarrow>
   fetch_each_map w pool' region xs acc = fetch_each_map w pool region xs acc"
  by (induction xs arbitrary: acc) (auto split: option.splits)

lemma fetch_each_map_result:
  assumes "\<forall>p \<in> set xs. map_find w p pool \<noteq> None"
  shows "\<exists>res. fetch_each_map w pool region xs acc = Some res \<and>
           (\<forall>s. map_of res s =
              (if \<exists>p \<in> set xs. s \<in> fst ` set (reader_fetch_reads w (the (map_find w p pool)) region)
               then Some ((case map_of acc s of None \<Rightarrow> [] | Some v \<Rightarrow> v) @
                          concat (map (\<lambda>p. reads_of_sample
                             (reader_fetch_reads w (the (map_find w p pool)) region) s) xs))
               else map_of acc s))"
  using assms
proof (induction xs arbitrary: acc)
  case Nil
  then show ?case by simp
next
  case (Cons x xs)
  then obtain q where q: "map_find w x pool = Some q"
    by auto
  from Cons.prems have "\<forall>p \<in> set xs. map_find w p pool \<noteq> None"
    by simp
  from Cons.IH [OF this, of "merge_reads acc (reader_fetch_reads w q region)"]
  obtain res where res: "fetch_each_map w pool region xs
        (merge_reads acc (reader_fetch_reads w q region)) = Some res"
    and char: "\<forall>s. map_of res s =
              (if \<exists>p \<in> set xs. s \<in> fst ` set (reader_fetch_reads w (the (map_find w p pool)) region)
               then Some ((case map_of (merge_reads acc (reader_fetch_reads w q region)) s of
                             None \<Rightarrow> [] | Some v \<Rightarrow> v) @
                          concat (map (\<lambda>p. reads_of_sample
                             (reader_fetch_reads w (the (map_find w p pool)) region) s) xs))
               else map_of (merge_reads acc (reader_fetch_reads w q region)) s)"
    by blast
  have none: "concat (map (\<lambda>p. reads_of_sample
                 (reader_fetch_reads w (the (map_find w p pool)) region) s) xs) = []"
    if "\<not> (\<exists>p \<in> set xs. s \<in> fst ` set (reader_fetch_reads w (the (map_find w p pool)) region))"
    for s
    using that by (auto simp: reads_of_sample_absent)
  have "map_of res s =
              (if \<exists>p \<in> set (x # xs). s \<in> fst ` set (reader_fetch_reads w (the (map_find w p pool)) region)
               then Some ((case map_of acc s of None \<Rightarrow> [] | Some v \<Rightarrow> v) @
                          concat (map (\<lambda>p. reads_of_sample
                             (reader_fetch_reads w (the (map_find w p pool)) region) s) (x # xs)))
               else map_of acc s)" for s
  proof (cases "s \<in> fst ` set (reader_fetch_reads w q region)")
    case True
    then show ?thesis
      using char none [of s] by (auto simp: q map_of_merge_reads split: option.splits)
  next
    case False
    then show ?thesis
      using char by (auto simp: q map_of_merge_reads reads_of_sample_absent split: option.splits)
  qed
  with res q show ?case
    by simp
qed

lemma get_reader_paths_index:
  "reader_paths_containing_sample m' = reader_paths_containing_sample m \<Longrightarrow>
   get_reader_paths_containing_samples m' samples acc = get_reader_paths_containing_samples m samples acc"
  by (induction samples arbitrary: acc) (auto split: option.splits)

lemma fetch_each_map_result_empty:
  assumes "\<forall>p \<in> set xs. map_find w p pool \<noteq> None"
  shows "\<exists>res. fetch_each_map w pool region xs [] = Some res \<and>
           (\<forall>s. map_of res s =
              (if \<exists>p \<in> set xs. s \<in> fst ` set (reader_fetch_reads w (the (map_find w p pool)) region)
               then Some (concat (map (\<lambda>p. reads_of_sample
                             (reader_fetch_reads w (the (map_find w p pool)) region) s) xs))
               else None))"
  using fetch_each_map_result [OF assms, of region "[]"]
  by (simp only: map_of.simps option.case append_Nil)

lemma fetch_reads_samples_repeat:
  assumes sorted: "pool_sorted w m"
      and rp: "get_reader_paths_containing_samples m samples [] = Some reader_paths"
      and first: "fetch_reads_samples w samples region m = Returns reads m'"
      and still: "\<forall>p \<in> set reader_paths. could_reader_contain_region m p region \<longrightarrow> is_open w m' p"
  shows "\<exists>reads'. fetch_reads_samples w samples region m' = Returns reads' m' \<and>
           (\<forall>s. map_option mset (map_of reads' s) = map_option mset (map_of reads s))"
proof -
  define Cand where "Cand = filter (\<lambda>p. could_reader_contain_region m p region) reader_paths"
  define Opn where "Opn = filter (is_open w m) Cand"
  define New where "New = filter (Not \<circ> is_open w m) Cand"
  from first have "(case fetch_each_map w (open_readers_map m) region Opn [] of
                None \<Rightarrow> Throws Out_of_range m
              | Some result \<Rightarrow>
                  (case open_readers w New m of
                     Undefined_behaviour \<Rightarrow> Undefined_behaviour
                   | Throws e m2 \<Rightarrow> Throws e m2
                   | Returns u m2 \<Rightarrow>
                       (case fetch_each_map w (open_readers_map m2) region New result of
                          None \<Rightarrow> Throws Out_of_range m2
                        | Some result' \<Rightarrow> Returns result' m2))) = Returns reads m'"
    by (simp only: fetch_reads_samples_def rp option.case partition_filter_conv Let_def split_conv
        Cand_def Opn_def New_def)
  then obtain r1 u
    where f1: "fetch_each_map w (open_readers_map m) region Opn [] = Some r1"
      and opened: "open_readers w New m = Returns u m'"
      and f2: "fetch_each_map w (open_readers_map m') region New r1 = Some reads"
    by (auto split: option.splits outcome.splits)
  from opened have fin: "final_state (open_readers w New m) = Some m'"
    by simp
  note frame = open_readers_frame [OF fin]
  have could': "could_reader_contain_region m' p region = could_reader_contain_region m p region" for p
    using frame by (intro could_contain_regions) simp
  have "get_reader_paths_containing_samples m' samples []
          = get_reader_paths_containing_samples m samples []"
    using frame by (intro get_reader_paths_index) simp
  with rp have rp': "get_reader_paths_containing_samples m' samples [] = Some reader_paths"
    by simp
  have Cand_open: "\<forall>p \<in> set Cand. is_open w m' p"
    using still by (auto simp: Cand_def)
  have p1: "filter (\<lambda>p. could_reader_contain_region m' p region) reader_paths = Cand"
    by (simp add: could' Cand_def)
  have p3: "filter (is_open w m') Cand = Cand"
    using Cand_open by (simp add: filter_id_conv)
  have p4: "filter (Not \<circ> is_open w m') Cand = []"
    using Cand_open by (simp add: filter_empty_conv)
  have fresh: "\<forall>p \<in> set New. map_find w p (open_readers_map m) = None"
    by (simp add: New_def is_open_def)
  have "map_find w p (open_readers_map m') = map_find w p (open_readers_map m)" if "p \<in> set Opn" for p
  proof -
    from that obtain q where q: "map_find w p (open_readers_map m) = Some q"
      by (auto simp: Opn_def is_open_def)
    from that Cand_open have "map_find w p (open_readers_map m') \<noteq> None"
      by (simp add: is_open_def Opn_def)
    from map_find_stable [OF sorted fin fresh q this] q show ?thesis
      by simp
  qed
  then have "fetch_each_map w (open_readers_map m') region Opn [] = Some r1"
    using fetch_each_map_cong [of Opn w "open_readers_map m'" "open_readers_map m" region "[]"] f1
    by simp
  with f2 have all: "fetch_each_map w (open_readers_map m') region (Opn @ New) [] = Some reads"
    by (simp add: fetch_each_map_append)
  have found: "\<forall>p \<in> set Cand. map_find w p (open_readers_map m') \<noteq> None"
    using Cand_open by (simp add: is_open_def)
  define contribution where "contribution s p =
      reads_of_sample (reader_fetch_reads w (the (map_find w p (open_readers_map m'))) region) s"
    for s p
  define holds where "holds s = (\<exists>p \<in> set Cand. s \<in> fst ` set (reader_fetch_reads w
                      (the (map_find w p (open_readers_map m'))) region))" for s
  have set_eq: "set (Opn @ New) = set Cand"
    by (auto simp: Opn_def New_def)
  have mset_eq: "mset (Opn @ New) = mset Cand"
    by (simp add: Opn_def New_def comp_def)
  from fetch_each_map_result_empty [OF found, of region] obtain reads'
    where second: "fetch_each_map w (open_readers_map m') region Cand [] = Some reads'"
      and char': "\<forall>s. map_of reads' s =
                    (if holds s then Some (concat (map (contribution s) Cand)) else None)"
    unfolding holds_def contribution_def by blast
  from found have "\<forall>p \<in> set (Opn @ New). map_find w p (open_readers_map m') \<noteq> None"
    unfolding set_eq .
  from fetch_each_map_result_empty [OF this, of region] obtain res
    where res: "fetch_each_map w (open_readers_map m') region (Opn @ New) [] = Some res"
      and char: "\<forall>s. map_of res s =
                    (if holds s then Some (concat (map (contribution s) (Opn @ New))) else None)"
    unfolding holds_def contribution_def set_eq by blast
  from res all have "res = reads"
    by simp
  have "map_option mset (map_of reads' s) = map_option mset (map_of reads s)" for s
  proof (cases "holds s")
    case True
    with char char' \<open>res = reads\<close>
    have "map_of reads' s = Some (concat (map (contribution s) Cand))"
      and "map_of reads s = Some (concat (map (contribution s) (Opn @ New)))"
      by simp_all
    with mset_concat_perm [OF mset_eq, of "contribution s"] show ?thesis
      by (simp only: option.map)
  next
    case False
    with char char' \<open>res = reads\<close> show ?thesis
      by simp
  qed
  moreover have "fetch_reads_samples w samples region m' = Returns reads' m'"
    by (simp only: fetch_reads_samples_def rp' option.case partition_filter_conv Let_def split_conv
        p1 p3 p4 second open_readers_nothing outcome.case fetch_each_map.simps)
  ultimately show ?thesis
    by blast
qed

lemma fetch_keeps_index:
  assumes "final_state (fetch_reads_samples w samples region m) = Some m'"
  shows "reader_paths_containing_sample m' = reader_paths_containing_sample m"
  using fetch_reads_samples_shape [OF assms] open_readers_frame by blast

text \<open>
  C9 as stated fails for the multi-sample fetch. With a budget of two, z.bam and y.bam are
  open after construction. The first fetch of sample S queries y.bam (open), then opens
  x.bam in place of z.bam and queries it: S gets the reads of y.bam followed by those of
  x.bam. No source holding S was closed. The second fetch finds both open and queries
  them in the order of the path list: x.bam, then y.bam. The two results differ. (The
  path list is the iteration order of an unordered set. Were y.bam iterated first, the
  same happens with the sizes of the two files exchanged.)
\<close>

theorem repeated_multi_fetch_differs:
  "ReadManager xyz [''x.bam'', ''y.bam'', ''z.bam''] 2 = Returns () xyz_started \<and>
   fetch_reads_samples xyz [''S''] (chr1 0 50) xyz_started = Returns [(''S'', [2, 1])] xyz_fetched \<and>
   open_readers_map xyz_started = [''z.bam'', ''y.bam''] \<and>
   open_readers_map xyz_fetched = [''y.bam'', ''x.bam''] \<and>
   fetch_reads_samples xyz [''S''] (chr1 0 50) xyz_fetched = Returns [(''S'', [1, 2])] xyz_fetched \<and>
   [(''S'', [2 :: nat, 1])] \<noteq> [(''S'', [1, 2])]"
  by code_simp

text \<open>
  C9, amended. In every state a constructed manager reaches: get_samples returns its list
  without changing the manager, so a second call returns the same list. If a
  single-sample fetch returns and every source it queried is still open after it, the
  same fetch repeated at once returns the identical sequence of reads and leaves the
  manager as it is. If a multi-sample (or all-sample) fetch returns and every source it
  queried is still open after it, the same fetch repeated at once returns, and for every
  sample its reads are the same with the same multiplicities; their order may differ,
  because already-open sources are queried before newly opened ones.
\<close>

theorem repeated_queries_agree:
  assumes "ReadManager w read_file_paths max_open = Returns u m0"
      and "do_calls w calls m0 = Some m"
  shows "(get_samples m = Returns xs m' \<longrightarrow> m' = m \<and> get_samples m' = Returns xs m') \<and>
         (map_of (reader_paths_containing_sample m) sample = Some reader_paths \<longrightarrow>
          fetch_reads w sample region m = Returns reads m' \<longrightarrow>
          (\<forall>p \<in> set reader_paths. could_reader_contain_region m p region \<longrightarrow> is_open w m' p) \<longrightarrow>
          fetch_reads w sample region m' = Returns reads m') \<and>
         (get_reader_paths_containing_samples m samples [] = Some reader_paths \<longrightarrow>
          fetch_reads_samples w samples region m = Returns sample_reads m' \<longrightarrow>
          (\<forall>p \<in> set reader_paths. could_reader_contain_region m p region \<longrightarrow> is_open w m' p) \<longrightarrow>
          (\<exists>sample_reads'.
             fetch_reads_samples w samples region m' = Returns sample_reads' m' \<and>
             (\<forall>s. map_option mset (map_of sample_reads' s) = map_option mset (map_of sample_reads s)))) \<and>
         (get_reader_paths_containing_samples m (map fst (reader_paths_containing_sample m)) []
            = Some reader_paths \<longrightarrow>
          fetch_reads_all w region m = Returns sample_reads m' \<longrightarrow>
          (\<forall>p \<in> set reader_paths. could_reader_contain_region m p region \<longrightarrow> is_open w m' p) \<longrightarrow>
          (\<exists>sample_reads'.
             fetch_reads_all w region m' = Returns sample_reads' m' \<and>
             (\<forall>s. map_option mset (map_of sample_reads' s) = map_option mset (map_of sample_reads s))))"
proof -
  from do_calls_sorted [OF ReadManager_sorted [OF assms(1)] assms(2)]
  have sorted: "pool_sorted w m" .
  have 1: "get_samples m = Returns xs m' \<longrightarrow> m' = m \<and> get_samples m' = Returns xs m'"
    by (auto simp: get_samples_def)
  have 2: "map_of (reader_paths_containing_sample m) sample = Some reader_paths \<longrightarrow>
          fetch_reads w sample region m = Returns reads m' \<longrightarrow>
          (\<forall>p \<in> set reader_paths. could_reader_contain_region m p region \<longrightarrow> is_open w m' p) \<longrightarrow>
          fetch_reads w sample region m' = Returns reads m'"
    using fetch_reads_repeat [OF sorted] by blast
  have 3: "get_reader_paths_containing_samples m samples [] = Some reader_paths \<longrightarrow>
          fetch_reads_samples w samples region m = Returns sample_reads m' \<longrightarrow>
          (\<forall>p \<in> set reader_paths. could_reader_contain_region m p region \<longrightarrow> is_open w m' p) \<longrightarrow>
          (\<exists>sample_reads'.
             fetch_reads_samples w samples region m' = Returns sample_reads' m' \<and>
             (\<forall>s. map_option mset (map_of sample_reads' s) = map_option mset (map_of sample_reads s)))"
    using fetch_reads_samples_repeat [OF sorted] by blast
  have 4: "\<exists>sample_reads'.
             fetch_reads_all w region m' = Returns sample_reads' m' \<and>
             (\<forall>s. map_option mset (map_of sample_reads' s) = map_option mset (map_of sample_reads s))"
    if rp: "get_reader_paths_containing_samples m (map fst (reader_paths_containing_sample m)) []
            = Some reader_paths"
      and first: "fetch_reads_all w region m = Returns sample_reads m'"
      and still: "\<forall>p \<in> set reader_paths. could_reader_contain_region m p region \<longrightarrow> is_open w m' p"
  proof -
    from first have f: "fetch_reads_samples w (map fst (reader_paths_containing_sample m)) region m
                          = Returns sample_reads m'"
      by (simp add: fetch_reads_all_def)
    then have "final_state (fetch_reads_samples w (map fst (reader_paths_containing_sample m)) region m)
                 = Some m'"
      by simp
    with fetch_keeps_index have idx: "reader_paths_containing_sample m' = reader_paths_containing_sample m"
      by blast
    from fetch_reads_samples_repeat [OF sorted rp f still] show ?thesis
      by (simp add: fetch_reads_all_def idx)
  qed
  from 1 2 3 4 show ?thesis
    by blast
qed

theorem repeated_queries_agree_witness:
  "ReadManager lab lab_paths 2 = Returns () lab2 \<and>
   do_calls lab [] lab2 = Some lab2 \<and>
   get_samples lab2 = Returns [''S1'', ''S2''] lab2 \<and>
   map_of (reader_paths_containing_sample lab2) ''S2'' = Some [''b.bam'', ''c.bam''] \<and>
   fetch_reads lab ''S2'' (chr1 0 50) lab2 = Returns [5] lab2_reordered \<and>
   \<not> could_reader_contain_region lab2 ''b.bam'' (chr1 0 50) \<and>
   is_open lab lab2_reordered ''c.bam'' \<and>
   fetch_reads lab ''S2'' (chr1 0 50) lab2_reordered = Returns [5] lab2_reordered \<and>
   ReadManager xyz [''x.bam'', ''y.bam'', ''z.bam''] 2 = Returns () xyz_started \<and>
   get_reader_paths_containing_samples xyz_started [''S''] [] = Some [''x.bam'', ''y.bam''] \<and>
   fetch_reads_samples xyz [''S''] (chr1 0 50) xyz_started = Returns [(''S'', [2, 1])] xyz_fetched \<and>
   is_open xyz xyz_fetched ''x.bam'' \<and> is_open xyz xyz_fetched ''y.bam'' \<and>
   (\<exists>sample_reads'.
      fetch_reads_samples xyz [''S''] (chr1 0 50) xyz_fetched = Returns sample_reads' xyz_fetched \<and>
      map_option mset (map_of sample_reads' ''S'') = Some (mset [2, 1])) \<and>
   ReadManager lab lab_paths 4 = Returns () lab4 \<and>
   fetch_reads_all lab (chr1 0 50) lab4 = Returns [(''S1'', [1, 2, 4, 6]), (''S2'', [5])] lab4 \<and>
   (\<exists>sample_reads'.
      fetch_reads_all lab (chr1 0 50) lab4 = Returns sample_reads' lab4 \<and>
      map_option mset (map_of sample_reads' ''S1'') = Some (mset [1, 2, 4, 6]))"
proof -
  have c2: "ReadManager lab lab_paths 2 = Returns () lab2"
    by code_simp
  have d2: "do_calls lab [] lab2 = Some lab2"
    by simp
  have g: "get_samples lab2 = Returns [''S1'', ''S2''] lab2"
    by (simp add: get_samples_def lab2_def lab_index_def)
  have rp: "map_of (reader_paths_containing_sample lab2) ''S2'' = Some [''b.bam'', ''c.bam'']"
    by (simp add: lab2_def lab_index_def)
  have f: "fetch_reads lab ''S2'' (chr1 0 50) lab2 = Returns [5] lab2_reordered"
    by code_simp
  have na: "\<not> could_reader_contain_region lab2 ''b.bam'' (chr1 0 50)"
    by code_simp
  have oc: "is_open lab lab2_reordered ''c.bam''"
    by code_simp
  from na oc
  have still: "\<forall>p \<in> set [''b.bam'', ''c.bam''].
                 could_reader_contain_region lab2 p (chr1 0 50) \<longrightarrow> is_open lab lab2_reordered p"
    by simp
  from repeated_queries_agree [OF c2 d2, of "[''S1'', ''S2'']" lab2 "''S2''"
      "[''b.bam'', ''c.bam'']" "chr1 0 50" "[5]"] g
  have g': "get_samples lab2 = Returns [''S1'', ''S2''] lab2"
    by blast
  from repeated_queries_agree [OF c2 d2, of "[''S1'', ''S2'']" lab2_reordered "''S2''"
      "[''b.bam'', ''c.bam'']" "chr1 0 50" "[5]"] rp f still
  have f': "fetch_reads lab ''S2'' (chr1 0 50) lab2_reordered = Returns [5] lab2_reordered"
    by blast
  have cx: "ReadManager xyz [''x.bam'', ''y.bam'', ''z.bam''] 2 = Returns () xyz_started"
    by code_simp
  have dx: "do_calls xyz [] xyz_started = Some xyz_started"
    by simp
  have rpx: "get_reader_paths_containing_samples xyz_started [''S''] [] = Some [''x.bam'', ''y.bam'']"
    by code_simp
  have fx: "fetch_reads_samples xyz [''S''] (chr1 0 50) xyz_started
              = Returns [(''S'', [2, 1])] xyz_fetched"
    by code_simp
  have ox: "is_open xyz xyz_fetched ''x.bam''" and oy: "is_open xyz xyz_fetched ''y.bam''"
    by code_simp+
  then have stillx: "\<forall>p \<in> set [''x.bam'', ''y.bam''].
                 could_reader_contain_region xyz_started p (chr1 0 50) \<longrightarrow> is_open xyz xyz_fetched p"
    by simp
  from repeated_queries_agree [OF cx dx, of "[]" xyz_fetched "''S''"
      "[''x.bam'', ''y.bam'']" "chr1 0 50" "[]" "[''S'']" "[(''S'', [2, 1])]"] rpx fx stillx
  obtain sample_readsx where ax:
    "fetch_reads_samples xyz [''S''] (chr1 0 50) xyz_fetched = Returns sample_readsx xyz_fetched"
    and bx: "\<forall>s. map_option mset (map_of sample_readsx s)
                 = map_option mset (map_of [(''S'', [2, 1])] s)"
    by blast
  from bx have "map_option mset (map_of sample_readsx ''S'')
                  = map_option mset (map_of [(''S'', [2, 1])] ''S'')"
    by (rule spec)
  also have "\<dots> = Some (mset [2, 1])"
    by simp
  finally have "map_option mset (map_of sample_readsx ''S'') = Some (mset [2, 1])" .
  with ax have fx': "\<exists>sample_reads'.
      fetch_reads_samples xyz [''S''] (chr1 0 50) xyz_fetched = Returns sample_reads' xyz_fetched \<and>
      map_option mset (map_of sample_reads' ''S'') = Some (mset [2, 1])"
    by blast
  have c4: "ReadManager lab lab_paths 4 = Returns () lab4"
    by code_simp
  have d4: "do_calls lab [] lab4 = Some lab4"
    by simp
  have rp4: "get_reader_paths_containing_samples lab4 (map fst (reader_paths_containing_sample lab4)) []
               = Some [''a.bam'', ''c.bam'', ''d.bam'', ''b.bam'']"
    by code_simp
  have f4: "fetch_reads_all lab (chr1 0 50) lab4
              = Returns [(''S1'', [1, 2, 4, 6]), (''S2'', [5])] lab4"
    by code_simp
  have "is_open lab lab4 ''a.bam''" "is_open lab lab4 ''b.bam''"
    "is_open lab lab4 ''c.bam''" "is_open lab lab4 ''d.bam''"
    by code_simp+
  then have still4: "\<forall>p \<in> set [''a.bam'', ''c.bam'', ''d.bam'', ''b.bam''].
                 could_reader_contain_region lab4 p (chr1 0 50) \<longrightarrow> is_open lab lab4 p"
    by simp
  from repeated_queries_agree [OF c4 d4, of "[]" lab4 "''S1''"
      "[''a.bam'', ''c.bam'', ''d.bam'', ''b.bam'']" "chr1 0 50" "[]" "[]"
      "[(''S1'', [1, 2, 4, 6]), (''S2'', [5])]"] rp4 f4 still4
  obtain sample_reads4 where a4:
    "fetch_reads_all lab (chr1 0 50) lab4 = Returns sample_reads4 lab4"
    and b4: "\<forall>s. map_option mset (map_of sample_reads4 s)
           = map_option mset (map_of [(''S1'', [1, 2, 4, 6]), (''S2'', [5])] s)"
    by blast
  from b4 have "map_option mset (map_of sample_reads4 ''S1'')
           = map_option mset (map_of [(''S1'', [1, 2, 4, 6]), (''S2'', [5])] ''S1'')"
    by (rule spec)
  also have "\<dots> = Some (mset [1, 2, 4, 6])"
    by simp
  finally have "map_option mset (map_of sample_reads4 ''S1'') = Some (mset [1, 2, 4, 6])" .
  with a4 have f4': "\<exists>sample_reads'.
      fetch_reads_all lab (chr1 0 50) lab4 = Returns sample_reads' lab4 \<and>
      map_option mset (map_of sample_reads' ''S1'') = Some (mset [1, 2, 4, 6])"
    by blast
  from c2 d2 g' rp f na oc f' cx rpx fx ox oy fx' c4 f4 f4' show ?thesis
    by blast
qed

subsection \<open>The initial population\<close>

lemma emplace_readers_closed:
  "closed_readers (foldl (emplace_reader w) m ps) = filter (\<lambda>q. q \<notin> set ps) (closed_readers m)"
proof (induction ps arbitrary: m)
  case Nil
  then show ?case by simp
next
  case (Cons p ps)
  have "closed_readers (emplace_reader w m p) = filter (\<lambda>q. q \<noteq> p) (closed_readers m)"
    by (simp add: emplace_reader_def uset_erase_def removeAll_filter_not_eq) metis
  with Cons.IH [of "emplace_reader w m p"] show ?case
    by (auto intro: filter_cong)
qed

lemma length_map_emplace_new:
  "\<forall>x \<in> set xs. fs_file_size w x \<noteq> fs_file_size w k \<Longrightarrow>
   length (map_emplace w k xs) = Suc (length xs)"
  by (induction xs) (auto simp: file_size_compare_def)

lemma emplace_readers_distinct_sizes:
  "inj_on (fs_file_size w) (set (open_readers_map m) \<union> set ps) \<Longrightarrow> distinct ps \<Longrightarrow>
   set (open_readers_map m) \<inter> set ps = {} \<Longrightarrow>
   length (open_readers_map (foldl (emplace_reader w) m ps)) = length (open_readers_map m) + length ps"
proof (induction ps arbitrary: m)
  case Nil
  then show ?case by simp
next
  case (Cons p ps)
  let ?m = "emplace_reader w m p"
  have new: "\<forall>x \<in> set (open_readers_map m). fs_file_size w x \<noteq> fs_file_size w p"
  proof
    fix x assume x: "x \<in> set (open_readers_map m)"
    with Cons.prems(3) have "x \<noteq> p" by auto
    with Cons.prems(1) x show "fs_file_size w x \<noteq> fs_file_size w p"
      by (auto simp: inj_on_def)
  qed
  have sub: "set (open_readers_map ?m) \<subseteq> insert p (set (open_readers_map m))"
    by (simp add: emplace_reader_def set_map_emplace)
  have len: "length (open_readers_map ?m) = Suc (length (open_readers_map m))"
    using new by (simp add: emplace_reader_def length_map_emplace_new)
  have "inj_on (fs_file_size w) (set (open_readers_map ?m) \<union> set ps)"
    using Cons.prems(1) sub by (auto intro: inj_on_subset)
  moreover have "distinct ps"
    using Cons.prems(2) by simp
  moreover have "set (open_readers_map ?m) \<inter> set ps = {}"
    using Cons.prems(2,3) sub by auto
  ultimately show ?case
    using Cons.IH [of ?m] len by simp
qed

text \<open>
  What construction does achieve: no more readers are open than min(n, max_open_files),
  every open source is at most as large as every closed one, and when no two sources
  have the same size exactly min(n, max_open_files) of them are open.
\<close>

lemma initial_population:
  assumes "ReadManager w read_file_paths max_open = Returns u m"
      and "length (uset_of read_file_paths) < 2 ^ 32"
  shows "length (open_readers_map m) \<le> min (length (uset_of read_file_paths)) (unat max_open)"
    and "\<forall>p \<in> set (open_readers_map m). \<forall>q \<in> set (closed_readers m).
           fs_file_size w p \<le> fs_file_size w q"
    and "inj_on (fs_file_size w) (set read_file_paths) \<Longrightarrow>
         length (open_readers_map m) = min (length (uset_of read_file_paths)) (unat max_open)"
proof -
  define scanned where
    "scanned = setup_reader_samples_and_regions w (new_manager read_file_paths max_open)"
  define n where "n = length (uset_of read_file_paths)"
  define k where "k = min n (unat max_open)"
  define ordered where "ordered = sort_key (fs_file_size w) (uset_of read_file_paths)"
  have fr: "open_readers_map scanned = [] \<and> peak_open scanned = 0 \<and>
            max_open_files scanned = max_open \<and> closed_readers scanned = uset_of read_file_paths"
    using scan_readers_frame [of w "new_manager read_file_paths max_open" "uset_of read_file_paths"]
    by (simp add: scanned_def setup_reader_samples_and_regions_def new_manager_def)
  have "unat (of_nat n :: 32 word) = n"
    using assms(2) by (simp add: n_def unat_of_nat)
  then have kk: "unat (min max_open (of_nat n :: 32 word)) = k"
    by (simp add: k_def min_def word_le_nat_alt)
  have "\<forall>p \<in> set read_file_paths. fs_exists w p"
  proof (rule ccontr)
    assume "\<not> (\<forall>p \<in> set read_file_paths. fs_exists w p)"
    then have "\<exists>p \<in> set read_file_paths. \<not> fs_exists w p" by simp
    from ReadManager_Throws [OF this, of max_open] assms(1) show False by simp
  qed
  then have "get_bad_paths w (new_manager read_file_paths max_open) = []"
    by (simp add: get_bad_paths_def new_manager_def filter_empty_conv)
  with assms(1) have "open_initial_files w scanned = Returns u m"
    by (simp add: ReadManager_def setup_manager_def scanned_def)
  with open_initial_files_Returns [of scanned w] fr
  have m: "m = foldl (emplace_reader w) scanned (take k ordered)"
    by (simp add: n_def [symmetric] kk nth_element_def ordered_def)
  have pool: "set (open_readers_map m) \<subseteq> set (take k ordered)"
    using emplace_readers_pool [of w scanned "take k ordered"] fr by (simp add: m)
  have closed: "set (closed_readers m) \<subseteq> set (drop k ordered)"
  proof
    fix q assume "q \<in> set (closed_readers m)"
    then have "q \<in> set ordered" and "q \<notin> set (take k ordered)"
      using fr by (simp_all add: m emplace_readers_closed ordered_def)
    then show "q \<in> set (drop k ordered)"
      by (metis Un_iff append_take_drop_id set_append)
  qed
  have "sorted (map (fs_file_size w) (take k ordered @ drop k ordered))"
    by (simp add: ordered_def)
  then have "\<forall>p \<in> set (take k ordered). \<forall>q \<in> set (drop k ordered).
               fs_file_size w p \<le> fs_file_size w q"
    unfolding map_append sorted_append by simp
  with pool closed
  show "\<forall>p \<in> set (open_readers_map m). \<forall>q \<in> set (closed_readers m).
           fs_file_size w p \<le> fs_file_size w q"
    by blast
  have lenk: "length (take k ordered) = k"
    by (simp add: ordered_def k_def n_def)
  from emplace_readers_budget [of scanned k "take k ordered" w] fr lenk
  have "length (open_readers_map m) \<le> k"
    by (simp add: m)
  then show "length (open_readers_map m) \<le> min (length (uset_of read_file_paths)) (unat max_open)"
    by (simp add: k_def n_def)
  show "length (open_readers_map m) = min (length (uset_of read_file_paths)) (unat max_open)"
    if inj: "inj_on (fs_file_size w) (set read_file_paths)"
  proof -
    have "distinct ordered"
      by (simp add: ordered_def)
    then have d: "distinct (take k ordered)"
      by simp
    have "set (take k ordered) \<subseteq> set read_file_paths"
      using set_take_subset [of k ordered] by (simp add: ordered_def)
    with inj have "inj_on (fs_file_size w) (set (open_readers_map scanned) \<union> set (take k ordered))"
      using fr by (auto intro: inj_on_subset)
    from emplace_readers_distinct_sizes [OF this d] fr lenk
    show ?thesis
      by (simp add: m k_def n_def)
  qed
qed

text \<open>
  C6. The claim is that construction leaves exactly min(n, max_open_files) sources open.
  It fails when two sources have the same file size: open_initial_files hands both to
  open_readers, but for the size-ordered map the second path is a key that is already
  present, so emplace inserts nothing. With two files of size 10 and a budget of two, one
  reader is open. The second path has been erased from the closed set all the same, so it
  is neither open nor closed, is_open answers true for it, and a fetch reads it from the
  reader of the other file.
\<close>

theorem equal_sizes_open_fewer:
  "ReadManager twins [''x.bam'', ''y.bam''] 2 = Returns () twins_started \<and>
   length (uset_of [''x.bam'', ''y.bam'']) = 2 \<and>
   min (2 :: nat) (unat (2 :: 32 word)) = 2 \<and>
   length (open_readers_map twins_started) = 1 \<and>
   open_readers_map twins_started = [''x.bam''] \<and>
   closed_readers twins_started = [] \<and>
   is_open twins twins_started ''y.bam'' \<and>
   fetch_reads twins ''S'' (chr1 0 50) twins_started = Returns [1, 1] twins_started"
  by code_simp

end
